theory Spec2Isabelle
  imports Main "HOL-Library.AList" "HOL-Library.Multiset"
begin

section \<open>Strings\<close>

text \<open>
  The source is TypeScript; its strings are sequences of UTF-16 code units. A \<^typ>\<open>char\<close>
  stands for a code unit in the range U+0000 .. U+00FF (Latin-1), and \<open>length\<close> is the
  string's \<^verbatim>\<open>.length\<close>. Code units above U+00FF are outside the model.
\<close>

definition isWhiteSpace :: "char \<Rightarrow> bool" where
  \<comment> \<open>The class \<^verbatim>\<open>\s\<close> of a regular expression, which is also what \<^verbatim>\<open>trim()\<close> removes:
      TAB, LF, VT, FF, CR, SPACE and NO-BREAK SPACE.\<close>
  "isWhiteSpace c \<longleftrightarrow> of_char c \<in> {9, 10, 11, 12, 13, 32, 160 :: nat}"

definition isTrailingPunct :: "char \<Rightarrow> bool" where
  \<comment> \<open>The character class \<^verbatim>\<open>[.,!?;:]\<close>.\<close>
  "isTrailingPunct c \<longleftrightarrow> c \<in> set ''.,!?;:''"

definition toLowerChar :: "char \<Rightarrow> char" where
  \<comment> \<open>\<^verbatim>\<open>toLowerCase\<close> on one code unit: A-Z, and U+00C0 .. U+00DE without the
      multiplication sign U+00D7, move up by 32.\<close>
  "toLowerChar c =
     (let n = (of_char c :: nat) in
      if (65 \<le> n \<and> n \<le> 90) \<or> (192 \<le> n \<and> n \<le> 222 \<and> n \<noteq> 215)
      then char_of (n + 32) else c)"

definition toLowerCase :: "string \<Rightarrow> string" where
  "toLowerCase s = map toLowerChar s"

definition trim :: "string \<Rightarrow> string" where
  "trim s = rev (dropWhile isWhiteSpace (rev (dropWhile isWhiteSpace s)))"

function collapseWhitespace :: "string \<Rightarrow> string" where
  \<comment> \<open>\<^verbatim>\<open>.replace(/\s+/g, ' ')\<close>: every maximal run of white space becomes one space.\<close>
  "collapseWhitespace [] = []"
| "collapseWhitespace (c # cs) =
     (if isWhiteSpace c then CHR '' '' # collapseWhitespace (dropWhile isWhiteSpace cs)
      else c # collapseWhitespace cs)"
  by pat_completeness auto
termination
  by (relation "measure length") (auto simp: less_Suc_eq_le length_dropWhile_le)

definition stripTrailingPunct :: "string \<Rightarrow> string" where
  \<comment> \<open>\<^verbatim>\<open>.replace(/[.,!?;:]+$/, '')\<close>: the leftmost match that reaches the end of the
      string is the whole trailing run of punctuation.\<close>
  "stripTrailingPunct s = rev (dropWhile isTrailingPunct (rev s))"

definition normalizeAnswer :: "string \<Rightarrow> string" where
  \<comment> \<open>\<^verbatim>\<open>if (!answer) return ''\<close>: the empty string is falsy.\<close>
  "normalizeAnswer ans =
     (if ans = [] then []
      else stripTrailingPunct (collapseWhitespace (trim (toLowerCase ans))))"

section \<open>Types of the framework\<close>

datatype ConfidenceLevel = High | Medium | Low

datatype QuestionType =
  Factual | Comparative | MultiHop | Aggregative | Procedural | Analytical

datatype RedFlagReason =
  ResponseTooLong | ResponseTooShort | CircularReasoning | InvalidFormat
  | LowConfidenceError | Custom

text \<open>An optional field of a TypeScript interface is an \<^typ>\<open>'a option\<close>; \<open>None\<close> is
  \<^verbatim>\<open>undefined\<close>. Numbers are integers.\<close>

record RedFlagResult =
  redFlagged :: bool
  reason :: "RedFlagReason option"

record VotingStats =
  totalVotes :: int
  validVotes :: int
  redFlaggedVotes :: int
  winningVoteCount :: int
  margin :: int
  k :: int

record Vote =
  voteIndex :: nat
  answer :: string
  confidence :: ConfidenceLevel
  parseSucceeded :: "bool option"
  redFlagged :: "bool option"
  redFlagReason :: "RedFlagReason option"

text \<open>The fields \<^verbatim>\<open>reasoning\<close> and \<^verbatim>\<open>temperature\<close> of a vote are written once and never
  read by the voting engine, the filter or the orchestrator; they are left out.\<close>

record VoteData =
  count :: int
  originalAnswer :: string
  confidence :: ConfidenceLevel

record VotingResult =
  consensusReached :: bool
  winner :: "string option"
  confidence :: "ConfidenceLevel option"
  stats :: VotingStats

section \<open>Red-flag filter\<close>

record RedFlagFilter =
  maxTokens :: int
  minChars :: int
  customValidator :: "(string \<Rightarrow> RedFlagResult) option"

record RedFlagConfig =
  maxTokens :: "int option"
  minChars :: "int option"
  customValidator :: "(string \<Rightarrow> RedFlagResult) option"

definition newRedFlagFilter :: "RedFlagConfig \<Rightarrow> RedFlagFilter" where
  "newRedFlagFilter config =
     \<lparr> RedFlagFilter.maxTokens = (case RedFlagConfig.maxTokens config of None \<Rightarrow> 750 | Some n \<Rightarrow> n),
       RedFlagFilter.minChars = (case RedFlagConfig.minChars config of None \<Rightarrow> 5 | Some n \<Rightarrow> n),
       RedFlagFilter.customValidator = RedFlagConfig.customValidator config \<rparr>"

definition flagged :: "RedFlagReason \<Rightarrow> RedFlagResult" where
  "flagged r = \<lparr> RedFlagResult.redFlagged = True, reason = Some r \<rparr>"

definition notFlagged :: RedFlagResult where
  "notFlagged = \<lparr> RedFlagResult.redFlagged = False, reason = None \<rparr>"

definition estimatedTokens :: "string \<Rightarrow> int" where
  \<comment> \<open>\<^verbatim>\<open>Math.ceil(trimmedAnswer.length / 4)\<close>\<close>
  "estimatedTokens trimmedAnswer = (int (length trimmedAnswer) + 3) div 4"

definition check :: "RedFlagFilter \<Rightarrow> string \<Rightarrow> bool \<Rightarrow> RedFlagResult" where
  \<comment> \<open>\<open>ans\<close> is the parameter \<^verbatim>\<open>answer\<close>, \<open>parseOk\<close> is \<^verbatim>\<open>parseSucceeded\<close>.\<close>
  "check flt ans parseOk =
     (if ans = [] then flagged ResponseTooShort
      else let trimmedAnswer = trim ans in
        if estimatedTokens trimmedAnswer > RedFlagFilter.maxTokens flt then flagged ResponseTooLong
        else if int (length trimmedAnswer) < RedFlagFilter.minChars flt then flagged ResponseTooShort
        else if \<not> parseOk then flagged InvalidFormat
        else case RedFlagFilter.customValidator flt of
               None \<Rightarrow> notFlagged
             | Some validate \<Rightarrow>
                 (let customResult = validate trimmedAnswer in
                  if RedFlagResult.redFlagged customResult then customResult else notFlagged))"

section \<open>The oracle\<close>

text \<open>
  The language model is reached through \<^verbatim>\<open>provider.complete(request)\<close>, which resolves to a
  response or rejects. All calls of one run are awaited one after the other, so a run sees
  the oracle as the sequence of the outcomes of its calls: \<open>provider n\<close> is the outcome of
  call number \<open>n\<close> (counted from 0 over the whole run). The pipeline reads only the
  \<^verbatim>\<open>content\<close> of a response, which is a string or an object; \<open>ResponseObject\<close> holds the
  properties of such an object that the pipeline reads, each absent (\<open>None\<close>) or of the type
  its TypeScript declaration gives it.
\<close>

datatype error = Error string

record RawSubQuestion =
  id :: "string option"
  question :: "string option"
  dependencies :: "string list option"
  type :: "QuestionType option"

record ResponseObject =
  answer :: "string option"
  confidence :: "ConfidenceLevel option"
  reasoning :: "string option"
  needsDecomposition :: "bool option"
  complexity :: "int option"
  questionType :: "QuestionType option"
  subQuestions :: "RawSubQuestion list option"
  synthesisStrategy :: "string option"
  finalAnswer :: "string option"

datatype content = Text string | Object ResponseObject

datatype outcome = Throws error | Returns content

type_synonym LLMProvider = "nat \<Rightarrow> outcome"

section \<open>Voting engine\<close>

record VotingConfig =
  k :: "int option"
  maxVotes :: "int option"

record VotingEngine =
  k :: int
  maxVotes :: int

definition newVotingEngine :: "VotingConfig \<Rightarrow> VotingEngine" where
  \<comment> \<open>\<^verbatim>\<open>config.k ?? 3\<close>, \<^verbatim>\<open>config.maxVotes ?? 100\<close>; the deprecated fields are not read by
      continuous voting.\<close>
  "newVotingEngine config =
     \<lparr> VotingEngine.k = (case VotingConfig.k config of None \<Rightarrow> 3 | Some n \<Rightarrow> n),
       VotingEngine.maxVotes = (case VotingConfig.maxVotes config of None \<Rightarrow> 100 | Some n \<Rightarrow> n) \<rparr>"

definition confidenceOrder :: "ConfidenceLevel \<Rightarrow> int" where
  "confidenceOrder c = (case c of High \<Rightarrow> 3 | Medium \<Rightarrow> 2 | Low \<Rightarrow> 1)"

definition compareConfidence :: "ConfidenceLevel \<Rightarrow> ConfidenceLevel \<Rightarrow> int" where
  "compareConfidence a b = confidenceOrder a - confidenceOrder b"

definition generateVote :: "LLMProvider \<Rightarrow> nat \<Rightarrow> nat \<Rightarrow> Vote" where
  \<comment> \<open>\<open>callNo\<close> is the number of the oracle call this vote makes.\<close>
  "generateVote provider callNo idx =
     (case provider callNo of
        Throws _ \<Rightarrow>
          \<lparr> voteIndex = idx, Vote.answer = [], Vote.confidence = Low,
            parseSucceeded = Some False, Vote.redFlagged = Some True,
            redFlagReason = Some InvalidFormat \<rparr>
      | Returns (Object obj) \<Rightarrow>
          (case ResponseObject.answer obj of
             Some a \<Rightarrow>
               \<lparr> voteIndex = idx, Vote.answer = a,
                 Vote.confidence =
                   (case ResponseObject.confidence obj of None \<Rightarrow> Medium | Some c \<Rightarrow> c),
                 parseSucceeded = Some True, Vote.redFlagged = None, redFlagReason = None \<rparr>
           | None \<Rightarrow>
               \<lparr> voteIndex = idx, Vote.answer = [], Vote.confidence = Medium,
                 parseSucceeded = Some False, Vote.redFlagged = None, redFlagReason = None \<rparr>)
      | Returns (Text t) \<Rightarrow>
          \<lparr> voteIndex = idx, Vote.answer = t, Vote.confidence = Medium,
            parseSucceeded = Some False, Vote.redFlagged = None, redFlagReason = None \<rparr>)"

text \<open>A JavaScript \<^verbatim>\<open>Map\<close> keeps its keys in insertion order, and \<^verbatim>\<open>set\<close> on a key that is
  present keeps the key's place: an association list under \<^const>\<open>AList.update\<close>.\<close>

type_synonym VoteCounts = "(string \<times> VoteData) list"

definition recordVote :: "VoteCounts \<Rightarrow> string \<Rightarrow> Vote \<Rightarrow> VoteCounts" where
  \<comment> \<open>The \<^verbatim>\<open>if (existing) ... else voteCounts.set(...)\<close> block, the same in the voting loop
      and in \<^verbatim>\<open>countVotes\<close>.\<close>
  "recordVote voteCounts normalized vote =
     (case map_of voteCounts normalized of
        Some existing \<Rightarrow>
          AList.update normalized
            (existing\<lparr> count := count existing + 1,
                       VoteData.confidence :=
                         (if compareConfidence (Vote.confidence vote) (VoteData.confidence existing) > 0
                          then Vote.confidence vote else VoteData.confidence existing) \<rparr>)
            voteCounts
      | None \<Rightarrow>
          AList.update normalized
            \<lparr> count = 1, originalAnswer = Vote.answer vote,
              VoteData.confidence = Vote.confidence vote \<rparr>
            voteCounts)"

record VotingState =
  voteCounts :: VoteCounts
  allVotes :: "Vote list"
  validVoteCount :: int

text \<open>The loop variable \<^verbatim>\<open>voteIndex\<close> is incremented exactly when a vote is pushed on
  \<^verbatim>\<open>allVotes\<close>, so it is \<open>length (allVotes st)\<close>. The callback \<^verbatim>\<open>onVote\<close> only observes
  the vote and the tally; it is left out.\<close>

datatype ('s, 'r) step = Continue 's | Return 'r

definition sortDescending :: "int list \<Rightarrow> int list" where
  \<comment> \<open>\<^verbatim>\<open>[...counts].sort((a, b) => b - a)\<close>\<close>
  "sortDescending counts = sort_key (\<lambda>c. - c) counts"

definition sortByCountDescending :: "VoteCounts \<Rightarrow> VoteCounts" where
  \<comment> \<open>\<^verbatim>\<open>Array.from(voteCounts.entries()).sort((a, b) => b[1].count - a[1].count)\<close>; the sort of
      an array is stable, and so is \<^const>\<open>sort_key\<close>.\<close>
  "sortByCountDescending entries = sort_key (\<lambda>e. - count (snd e)) entries"

definition cutoffResult :: "VotingEngine \<Rightarrow> VotingState \<Rightarrow> VotingResult" where
  \<comment> \<open>The body of \<^verbatim>\<open>if (allVotes.length >= this.maxVotes)\<close>.\<close>
  "cutoffResult eng st =
     (let sorted = sortByCountDescending (voteCounts st);
          winnerData = (case sorted of [] \<Rightarrow> None | e # _ \<Rightarrow> Some (snd e));
          runnerUpData = (case sorted of _ # e # _ \<Rightarrow> Some (snd e) | _ \<Rightarrow> None);
          winnerCount = (case winnerData of None \<Rightarrow> 0 | Some d \<Rightarrow> count d);
          runnerUpCount = (case runnerUpData of None \<Rightarrow> 0 | Some d \<Rightarrow> count d)
      in \<lparr> consensusReached = False,
           winner = map_option originalAnswer winnerData,
           VotingResult.confidence = map_option VoteData.confidence winnerData,
           stats = \<lparr> totalVotes = int (length (allVotes st)),
                     validVotes = validVoteCount st,
                     redFlaggedVotes = int (length (allVotes st)) - validVoteCount st,
                     winningVoteCount = winnerCount,
                     margin = winnerCount - runnerUpCount,
                     VotingStats.k = VotingEngine.k eng \<rparr> \<rparr>)"

definition consensusResult ::
  "VotingEngine \<Rightarrow> VotingState \<Rightarrow> VoteData \<Rightarrow> int \<Rightarrow> int \<Rightarrow> VotingResult" where
  \<comment> \<open>The object returned inside \<^verbatim>\<open>for (const [, data] of voteCounts)\<close>.\<close>
  "consensusResult eng st dat maxCount runnerUpCount =
     \<lparr> consensusReached = True,
       winner = Some (originalAnswer dat),
       VotingResult.confidence = Some (VoteData.confidence dat),
       stats = \<lparr> totalVotes = int (length (allVotes st)),
                 validVotes = validVoteCount st,
                 redFlaggedVotes = int (length (allVotes st)) - validVoteCount st,
                 winningVoteCount = maxCount,
                 margin = maxCount - runnerUpCount,
                 VotingStats.k = VotingEngine.k eng \<rparr> \<rparr>"

definition voteIteration ::
  "VotingEngine \<Rightarrow> RedFlagFilter \<Rightarrow> Vote \<Rightarrow> VotingState \<Rightarrow> (VotingState, VotingResult) step" where
  \<comment> \<open>One pass through the body of \<^verbatim>\<open>while (true)\<close>, after the vote was generated.
      \<^verbatim>\<open>continue\<close> is \<open>Continue\<close>, \<^verbatim>\<open>return\<close> is \<open>Return\<close>.\<close>
  "voteIteration eng flt vote st =
     (let flagResult =
            check flt (Vote.answer vote)
              (case parseSucceeded vote of None \<Rightarrow> True | Some b \<Rightarrow> b)
      in
      if RedFlagResult.redFlagged flagResult then
        Continue (st\<lparr> allVotes := allVotes st @
                         [vote\<lparr> Vote.redFlagged := Some True,
                                redFlagReason := reason flagResult \<rparr>] \<rparr>)
      else
        let st1 = st\<lparr> allVotes := allVotes st @ [vote],
                       validVoteCount := validVoteCount st + 1 \<rparr>;
            normalized = normalizeAnswer (Vote.answer vote)
        in
        if normalized = [] then Continue st1
        else
          let st2 = st1\<lparr> voteCounts := recordVote (voteCounts st1) normalized vote \<rparr>;
              counts = map (\<lambda>e. count (snd e)) (voteCounts st2)
          in
          if counts = [] then Continue st2
          else
            let maxCount = Max (set counts);
                sortedCounts = sortDescending counts;
                runnerUpCount = (if length sortedCounts > 1 then sortedCounts ! 1 else 0)
            in
            case (if maxCount \<ge> VotingEngine.k eng + runnerUpCount
                  then find (\<lambda>e. count (snd e) = maxCount) (voteCounts st2) else None) of
              Some e \<Rightarrow> Return (consensusResult eng st2 (snd e) maxCount runnerUpCount)
            | None \<Rightarrow>
                if int (length (allVotes st2)) \<ge> VotingEngine.maxVotes eng
                then Return (cutoffResult eng st2)
                else Continue st2)"

partial_function (option) voteLoop ::
  "VotingEngine \<Rightarrow> RedFlagFilter \<Rightarrow> LLMProvider \<Rightarrow> nat \<Rightarrow> VotingState \<Rightarrow> VotingResult option" where
  \<comment> \<open>\<^verbatim>\<open>while (true)\<close>: the loop need not end, and \<open>None\<close> is the run that never returns.
      \<open>firstCall\<close> is the number of the oracle call that the first vote makes.\<close>
  [code]: "voteLoop eng flt provider firstCall st =
     (let voteIdx = length (allVotes st);
          vote = generateVote provider (firstCall + voteIdx) voteIdx
      in case voteIteration eng flt vote st of
           Continue st' \<Rightarrow> voteLoop eng flt provider firstCall st'
         | Return r \<Rightarrow> Some r)"

definition initialState :: VotingState where
  "initialState = \<lparr> voteCounts = [], allVotes = [], validVoteCount = 0 \<rparr>"

definition voteUntilConsensus ::
  "VotingEngine \<Rightarrow> LLMProvider \<Rightarrow> nat \<Rightarrow> RedFlagFilter \<Rightarrow> VotingResult option" where
  \<comment> \<open>A result has made \<open>totalVotes\<close> oracle calls, one for each vote.\<close>
  "voteUntilConsensus eng provider firstCall flt = voteLoop eng flt provider firstCall initialState"

definition countVotes :: "Vote list \<Rightarrow> VoteCounts" where
  \<comment> \<open>\<^verbatim>\<open>for (const vote of votes)\<close> over a map that starts empty.\<close>
  "countVotes votes =
     foldl (\<lambda>counts vote.
              let normalized = normalizeAnswer (Vote.answer vote)
              in if normalized = [] then counts else recordVote counts normalized vote)
       [] votes"

definition createStats :: "VotingEngine \<Rightarrow> Vote list \<Rightarrow> Vote list \<Rightarrow> int \<Rightarrow> int \<Rightarrow> VotingStats" where
  "createStats eng votes valid winning runnerUpVotes =
     \<lparr> totalVotes = int (length votes),
       validVotes = int (length valid),
       redFlaggedVotes = int (length votes) - int (length valid),
       winningVoteCount = winning,
       margin = winning - runnerUpVotes,
       VotingStats.k = VotingEngine.k eng \<rparr>"

definition determineWinner :: "VotingEngine \<Rightarrow> Vote list \<Rightarrow> VotingResult" where
  \<comment> \<open>\<^verbatim>\<open>!v.redFlagged\<close> keeps a vote whose flag is absent or false.\<close>
  "determineWinner eng votes =
     (let valid = filter (\<lambda>v. Vote.redFlagged v \<noteq> Some True) votes in
      if valid = [] then
        \<lparr> consensusReached = False, winner = None, VotingResult.confidence = None,
          stats = createStats eng votes valid 0 0 \<rparr>
      else
        let sorted = sortByCountDescending (countVotes valid) in
        case sorted of
          [] \<Rightarrow>
            \<lparr> consensusReached = False, winner = None, VotingResult.confidence = None,
              stats = createStats eng votes valid 0 0 \<rparr>
        | e # others \<Rightarrow>
            let winnerData = snd e;
                winnerVotes = count winnerData;
                runnerUpVotes = (case others of [] \<Rightarrow> 0 | r # _ \<Rightarrow> count (snd r));
                reached = (if length sorted = 1 then winnerVotes \<ge> VotingEngine.k eng
                           else winnerVotes - runnerUpVotes \<ge> VotingEngine.k eng)
            in \<lparr> consensusReached = reached,
                 winner = Some (originalAnswer winnerData),
                 VotingResult.confidence = Some (VoteData.confidence winnerData),
                 stats = createStats eng votes valid winnerVotes runnerUpVotes \<rparr>)"

section \<open>Decomposer\<close>

record SubQuestion =
  id :: string
  question :: string
  dependencies :: "string list"
  type :: QuestionType
  index :: "nat option"

record Classification =
  needsDecomposition :: bool
  complexity :: int
  questionType :: QuestionType
  reasoning :: "string option"

type_synonym ClassifierFunction = "string \<Rightarrow> string option \<Rightarrow> error + Classification"

record Decomposer =
  enabled :: bool
  maxSubQuestions :: int
  classifier :: "ClassifierFunction option"
  customPrompt :: "string option"

text \<open>\<open>classifier = None\<close> is the mode \<^verbatim>\<open>'auto'\<close>. A classifier function returns a promise,
  which may reject. The text of a prompt reaches nothing but the oracle, whose outcome is
  given by the number of the call, so prompts are not built.\<close>

record DecompositionConfig =
  enabled :: "bool option"
  maxSubQuestions :: "int option"
  classifier :: "ClassifierFunction option"
  prompt :: "string option"

definition newDecomposer :: "DecompositionConfig \<Rightarrow> Decomposer" where
  "newDecomposer config =
     \<lparr> Decomposer.enabled = (case DecompositionConfig.enabled config of None \<Rightarrow> True | Some b \<Rightarrow> b),
       Decomposer.maxSubQuestions =
         (case DecompositionConfig.maxSubQuestions config of None \<Rightarrow> 8 | Some n \<Rightarrow> n),
       Decomposer.classifier = DecompositionConfig.classifier config,
       customPrompt = prompt config \<rparr>"

record Decomposition =
  subQuestions :: "SubQuestion list"
  synthesisStrategy :: string
  classification :: Classification

fun digitsOf :: "nat \<Rightarrow> string" where
  \<comment> \<open>The decimal numeral of a number, as a template literal prints it.\<close>
  "digitsOf n =
     (if n < 10 then [char_of (48 + n)]
      else digitsOf (n div 10) @ [char_of (48 + n mod 10)])"

definition parseClassification :: "content \<Rightarrow> Classification" where
  \<comment> \<open>\<^verbatim>\<open>Number(r.complexity) || 5\<close> is 5 for an absent property and for 0 as well.\<close>
  "parseClassification response =
     (case response of
        Object r \<Rightarrow>
          \<lparr> Classification.needsDecomposition = (ResponseObject.needsDecomposition r = Some True),
            Classification.complexity =
              (case ResponseObject.complexity r of None \<Rightarrow> 5 | Some n \<Rightarrow> if n = 0 then 5 else n),
            Classification.questionType =
              (case ResponseObject.questionType r of None \<Rightarrow> Factual | Some t \<Rightarrow> t),
            Classification.reasoning =
              Some (case ResponseObject.reasoning r of None \<Rightarrow> [] | Some t \<Rightarrow> t) \<rparr>
      | Text _ \<Rightarrow>
          \<lparr> Classification.needsDecomposition = False, Classification.complexity = 5,
            Classification.questionType = Factual, Classification.reasoning = None \<rparr>)"

definition orElse :: "string option \<Rightarrow> string \<Rightarrow> string" where
  \<comment> \<open>\<^verbatim>\<open>a || b\<close> on strings: an absent and an empty string are falsy.\<close>
  "orElse a b = (case a of None \<Rightarrow> b | Some t \<Rightarrow> if t = [] then b else t)"

definition parseSubQuestion :: "nat \<Rightarrow> RawSubQuestion \<Rightarrow> SubQuestion" where
  "parseSubQuestion i sqObj =
     \<lparr> SubQuestion.id = orElse (RawSubQuestion.id sqObj) (''sq'' @ digitsOf (i + 1)),
       SubQuestion.question = orElse (RawSubQuestion.question sqObj) [],
       SubQuestion.dependencies =
         (case RawSubQuestion.dependencies sqObj of None \<Rightarrow> [] | Some ds \<Rightarrow> ds),
       SubQuestion.type = (case RawSubQuestion.type sqObj of None \<Rightarrow> Factual | Some t \<Rightarrow> t),
       index = Some i \<rparr>"

definition parseDecomposition :: "content \<Rightarrow> SubQuestion list \<times> string" where
  "parseDecomposition response =
     (case response of
        Object r \<Rightarrow>
          ((case ResponseObject.subQuestions r of
              None \<Rightarrow> []
            | Some sqs \<Rightarrow> map (\<lambda>(i, sq). parseSubQuestion i sq) (enumerate 0 sqs)),
           orElse (ResponseObject.synthesisStrategy r) ''combine'')
      | Text _ \<Rightarrow> ([], ''combine''))"

definition createSingleSubQuestion :: "string \<Rightarrow> QuestionType \<Rightarrow> SubQuestion" where
  "createSingleSubQuestion q t =
     \<lparr> SubQuestion.id = ''sq1'', SubQuestion.question = q, SubQuestion.dependencies = [],
       SubQuestion.type = t, index = Some 0 \<rparr>"

definition classify ::
  "Decomposer \<Rightarrow> LLMProvider \<Rightarrow> nat \<Rightarrow> string \<Rightarrow> string option \<Rightarrow> error + (Classification \<times> nat)" where
  \<comment> \<open>The result carries the number of oracle calls made so far in the run.\<close>
  "classify d provider calls q ctx =
     (case Decomposer.classifier d of
        Some f \<Rightarrow> (case f q ctx of Inl e \<Rightarrow> Inl e | Inr c \<Rightarrow> Inr (c, calls))
      | None \<Rightarrow>
          (case provider calls of
             Throws e \<Rightarrow> Inl e
           | Returns response \<Rightarrow> Inr (parseClassification response, calls + 1)))"

definition slice0 :: "'a list \<Rightarrow> int \<Rightarrow> 'a list" where
  \<comment> \<open>\<^verbatim>\<open>xs.slice(0, e)\<close>; a negative end counts from the end of the array.\<close>
  "slice0 xs e = (if 0 \<le> e then take (nat e) xs else take (length xs - nat (- e)) xs)"

definition decompose ::
  "Decomposer \<Rightarrow> LLMProvider \<Rightarrow> nat \<Rightarrow> string \<Rightarrow> string option \<Rightarrow> error + (Decomposition \<times> nat)" where
  "decompose d provider calls q ctx =
     (if \<not> Decomposer.enabled d then
        Inr (\<lparr> Decomposition.subQuestions = [createSingleSubQuestion q Factual],
               Decomposition.synthesisStrategy = ''none'',
               classification =
                 \<lparr> Classification.needsDecomposition = False, Classification.complexity = 1,
                   Classification.questionType = Factual, Classification.reasoning = None \<rparr> \<rparr>,
             calls)
      else
        case classify d provider calls q ctx of
          Inl e \<Rightarrow> Inl e
        | Inr (cls, calls1) \<Rightarrow>
            if \<not> Classification.needsDecomposition cls then
              Inr (\<lparr> Decomposition.subQuestions =
                       [createSingleSubQuestion q (Classification.questionType cls)],
                     Decomposition.synthesisStrategy = ''none'',
                     classification = cls \<rparr>,
                   calls1)
            else
              (case provider calls1 of
                Throws e \<Rightarrow> Inl e
              | Returns response \<Rightarrow>
                  (let parsed = parseDecomposition response;
                       sqs = (if int (length (fst parsed)) > Decomposer.maxSubQuestions d
                              then slice0 (fst parsed) (Decomposer.maxSubQuestions d)
                              else fst parsed)
                   in if sqs = [] then
                        Inr (\<lparr> Decomposition.subQuestions =
                                 [createSingleSubQuestion q (Classification.questionType cls)],
                               Decomposition.synthesisStrategy = ''none'',
                               classification = cls \<rparr>,
                             calls1 + 1)
                      else
                        Inr (\<lparr> Decomposition.subQuestions = sqs,
                               Decomposition.synthesisStrategy = snd parsed,
                               classification = cls \<rparr>,
                             calls1 + 1))))"

section \<open>Synthesizer\<close>

record SubQuestionResult =
  question :: string
  answer :: string
  confidence :: ConfidenceLevel
  consensusReached :: bool
  votingStats :: VotingStats

record Synthesizer =
  enabled :: bool
  language :: string
  customPrompt :: "string option"

record SynthesisConfig =
  enabled :: "bool option"
  language :: "string option"
  prompt :: "string option"

definition newSynthesizer :: "SynthesisConfig \<Rightarrow> Synthesizer" where
  "newSynthesizer config =
     \<lparr> Synthesizer.enabled = (case SynthesisConfig.enabled config of None \<Rightarrow> True | Some b \<Rightarrow> b),
       Synthesizer.language =
         (case SynthesisConfig.language config of None \<Rightarrow> ''English'' | Some l \<Rightarrow> l),
       Synthesizer.customPrompt = SynthesisConfig.prompt config \<rparr>"

definition parseSynthesis :: "content \<Rightarrow> string \<times> ConfidenceLevel" where
  \<comment> \<open>\<^verbatim>\<open>r.finalAnswer || r.answer || ''\<close> and \<^verbatim>\<open>r.confidence || 'medium'\<close>\<close>
  "parseSynthesis response =
     (case response of
        Object r \<Rightarrow>
          (orElse (ResponseObject.finalAnswer r) (orElse (ResponseObject.answer r) []),
           (case ResponseObject.confidence r of None \<Rightarrow> Medium | Some c \<Rightarrow> c))
      | Text t \<Rightarrow> (t, Medium))"

definition calculateConfidence :: "ConfidenceLevel \<Rightarrow> SubQuestionResult list \<Rightarrow> ConfidenceLevel" where
  "calculateConfidence synthesisConfidence subAnswers =
     (let high = length (filter (\<lambda>sa. SubQuestionResult.confidence sa = High) subAnswers);
          medium = length (filter (\<lambda>sa. SubQuestionResult.confidence sa = Medium) subAnswers);
          low = length (filter (\<lambda>sa. SubQuestionResult.confidence sa = Low) subAnswers)
      in if synthesisConfidence = Low \<or> low > 0 then Low
         else if synthesisConfidence = Medium \<or> medium > high then Medium
         else High)"

fun joinWith :: "string \<Rightarrow> string list \<Rightarrow> string" where
  \<comment> \<open>\<^verbatim>\<open>parts.join(sep)\<close>\<close>
  "joinWith sep [] = []"
| "joinWith sep [x] = x"
| "joinWith sep (x # y # ys) = x @ sep @ joinWith sep (y # ys)"

definition fallbackSynthesis :: "SubQuestionResult list \<Rightarrow> string" where
  "fallbackSynthesis subAnswers =
     (case subAnswers of
        [] \<Rightarrow> ''Unable to determine answer.''
      | [sa] \<Rightarrow> SubQuestionResult.answer sa
      | _ \<Rightarrow>
          joinWith '' ''
            (map SubQuestionResult.answer
               (filter (\<lambda>sa. SubQuestionResult.answer sa \<noteq> [] \<and> trim (SubQuestionResult.answer sa) \<noteq> [])
                  subAnswers)))"

definition synthesize ::
  "Synthesizer \<Rightarrow> LLMProvider \<Rightarrow> nat \<Rightarrow> string \<Rightarrow> SubQuestionResult list
     \<Rightarrow> error + ((string \<times> ConfidenceLevel) \<times> nat)" where
  \<comment> \<open>The result is the pair of \<^verbatim>\<open>answer\<close> and \<^verbatim>\<open>confidence\<close>, with the number of oracle
      calls made so far in the run.\<close>
  "synthesize s provider calls originalQuestion subAnswers =
     (if \<not> Synthesizer.enabled s \<or> subAnswers = [] then
        Inr ((case subAnswers of
                [] \<Rightarrow> (''Unable to determine answer.'', Low)
              | sa # _ \<Rightarrow> (SubQuestionResult.answer sa, SubQuestionResult.confidence sa)),
             calls)
      else if length subAnswers = 1 then
        Inr ((SubQuestionResult.answer (hd subAnswers), SubQuestionResult.confidence (hd subAnswers)),
             calls)
      else
        case provider calls of
          Throws e \<Rightarrow> Inl e
        | Returns response \<Rightarrow>
            (let parsed = parseSynthesis response;
                 finalConfidence = calculateConfidence (snd parsed) subAnswers
             in Inr ((if fst parsed \<noteq> [] then fst parsed else fallbackSynthesis subAnswers,
                      finalConfidence),
                     calls + 1)))"

section \<open>Orchestrator\<close>

record MakerConfig =
  provider :: LLMProvider
  decomposition :: "DecompositionConfig option"
  voting :: "VotingConfig option"
  redFlags :: "RedFlagConfig option"
  synthesis :: "SynthesisConfig option"

text \<open>\<open>provider\<close> is the provider that \<^verbatim>\<open>createProvider\<close> returned: an unknown provider
  name makes the constructor throw, and then there is no \<open>Maker\<close> to ask.\<close>

record AskOptions =
  contextText :: "string option"
  k :: "int option"

text \<open>\<open>contextText\<close> is the option \<^verbatim>\<open>context\<close>.\<close>

record MakerResult =
  answer :: string
  confidence :: ConfidenceLevel
  consensusReached :: bool
  isDecomposed :: bool
  subQuestions :: "SubQuestionResult list"
  synthesisStrategy :: string
  votingStats :: VotingStats
  totalTokens :: int

text \<open>\<^verbatim>\<open>executionTimeMs\<close> is a difference of two readings of the clock and is not modelled.
  The events that \<^verbatim>\<open>ask\<close> emits carry copies of these values to listeners and do not
  feed back into the result.\<close>

definition emptyVotingConfig :: VotingConfig where
  "emptyVotingConfig = \<lparr> VotingConfig.k = None, maxVotes = None \<rparr>"

definition emptyRedFlagConfig :: RedFlagConfig where
  "emptyRedFlagConfig =
     \<lparr> RedFlagConfig.maxTokens = None, minChars = None, RedFlagConfig.customValidator = None \<rparr>"

definition emptyDecompositionConfig :: DecompositionConfig where
  "emptyDecompositionConfig =
     \<lparr> DecompositionConfig.enabled = None, DecompositionConfig.maxSubQuestions = None,
       DecompositionConfig.classifier = None, DecompositionConfig.prompt = None \<rparr>"

definition emptySynthesisConfig :: SynthesisConfig where
  "emptySynthesisConfig =
     \<lparr> SynthesisConfig.enabled = None, SynthesisConfig.language = None,
       SynthesisConfig.prompt = None \<rparr>"

definition orDefault :: "'a option \<Rightarrow> 'a \<Rightarrow> 'a" where
  \<comment> \<open>\<^verbatim>\<open>config.voting ?? {}\<close>\<close>
  "orDefault v d = (case v of None \<Rightarrow> d | Some x \<Rightarrow> x)"

definition makerVotingEngine :: "MakerConfig \<Rightarrow> VotingEngine" where
  \<comment> \<open>The field \<^verbatim>\<open>this.votingEngine\<close>, built by the constructor.\<close>
  "makerVotingEngine config = newVotingEngine (orDefault (voting config) emptyVotingConfig)"

definition askVotingEngine :: "MakerConfig \<Rightarrow> AskOptions option \<Rightarrow> VotingEngine" where
  \<comment> \<open>\<^verbatim>\<open>new VotingEngine({...this.config.voting, k: options?.k ?? this.config.voting?.k})\<close>\<close>
  "askVotingEngine config options =
     newVotingEngine
       ((orDefault (voting config) emptyVotingConfig)
          \<lparr> VotingConfig.k :=
              (case Option.bind options AskOptions.k of
                 Some n \<Rightarrow> Some n
               | None \<Rightarrow> Option.bind (voting config) VotingConfig.k) \<rparr>)"

definition toSubResult :: "SubQuestion \<Rightarrow> VotingResult \<Rightarrow> SubQuestionResult" where
  "toSubResult sq result =
     \<lparr> SubQuestionResult.question = SubQuestion.question sq,
       SubQuestionResult.answer = orDefault (winner result) ''Unable to determine answer.'',
       SubQuestionResult.confidence = orDefault (VotingResult.confidence result) Low,
       SubQuestionResult.consensusReached = VotingResult.consensusReached result,
       SubQuestionResult.votingStats = stats result \<rparr>"

fun voteOnSubQuestions ::
  "VotingEngine \<Rightarrow> RedFlagFilter \<Rightarrow> LLMProvider \<Rightarrow> nat \<Rightarrow> SubQuestion list
     \<Rightarrow> (SubQuestionResult list \<times> nat) option" where
  \<comment> \<open>\<^verbatim>\<open>for (const [index, sq] of subQuestions.entries())\<close>; \<open>None\<close> when a voting session
      never returns.\<close>
  "voteOnSubQuestions eng flt prov calls [] = Some ([], calls)"
| "voteOnSubQuestions eng flt prov calls (sq # sqs) =
     (case voteUntilConsensus eng prov calls flt of
        None \<Rightarrow> None
      | Some result \<Rightarrow>
          (case voteOnSubQuestions eng flt prov (calls + nat (totalVotes (stats result))) sqs of
             None \<Rightarrow> None
           | Some (subResults, calls') \<Rightarrow> Some (toSubResult sq result # subResults, calls')))"

definition aggregateVotingStats :: "VotingEngine \<Rightarrow> SubQuestionResult list \<Rightarrow> VotingStats" where
  \<comment> \<open>The first argument is \<^verbatim>\<open>this.votingEngine\<close>.\<close>
  "aggregateVotingStats eng subResults =
     (if subResults = [] then
        \<lparr> totalVotes = 0, validVotes = 0, redFlaggedVotes = 0, winningVoteCount = 0,
          margin = 0, VotingStats.k = VotingEngine.k eng \<rparr>
      else if length subResults = 1 then SubQuestionResult.votingStats (hd subResults)
      else
        \<lparr> totalVotes =
            foldl (\<lambda>sum r. sum + totalVotes (SubQuestionResult.votingStats r)) 0 subResults,
          validVotes =
            foldl (\<lambda>sum r. sum + validVotes (SubQuestionResult.votingStats r)) 0 subResults,
          redFlaggedVotes =
            foldl (\<lambda>sum r. sum + redFlaggedVotes (SubQuestionResult.votingStats r)) 0 subResults,
          winningVoteCount =
            Min (set (map (\<lambda>r. winningVoteCount (SubQuestionResult.votingStats r)) subResults)),
          margin = Min (set (map (\<lambda>r. margin (SubQuestionResult.votingStats r)) subResults)),
          VotingStats.k = VotingEngine.k eng \<rparr>)"

definition calculateOverallConfidence ::
  "SubQuestionResult list \<Rightarrow> ConfidenceLevel \<Rightarrow> ConfidenceLevel" where
  \<comment> \<open>\<^verbatim>\<open>mediumCount > subResults.length / 2\<close> is a comparison of fractions.\<close>
  "calculateOverallConfidence subResults synthesisConfidence =
     (if subResults = [] then Low
      else if list_ex (\<lambda>r. SubQuestionResult.confidence r = Low
                           \<or> \<not> SubQuestionResult.consensusReached r) subResults
              \<or> synthesisConfidence = Low then Low
      else if 2 * length (filter (\<lambda>r. SubQuestionResult.confidence r = Medium) subResults)
                > length subResults
              \<or> synthesisConfidence = Medium then Medium
      else High)"

definition ask :: "MakerConfig \<Rightarrow> string \<Rightarrow> AskOptions option \<Rightarrow> (error + MakerResult) option" where
  \<comment> \<open>\<open>None\<close>: the promise never settles; \<open>Some (Inl e)\<close>: it rejects with \<open>e\<close>;
      \<open>Some (Inr r)\<close>: it resolves to \<open>r\<close>.\<close>
  "ask config q options =
     (let prov = provider config;
          decomposer = newDecomposer (orDefault (decomposition config) emptyDecompositionConfig);
          redFlagFilter = newRedFlagFilter (orDefault (redFlags config) emptyRedFlagConfig);
          synthesizer = newSynthesizer (orDefault (synthesis config) emptySynthesisConfig)
      in case decompose decomposer prov 0 q (Option.bind options contextText) of
           Inl e \<Rightarrow> Some (Inl e)
         | Inr (plan, calls1) \<Rightarrow>
             (case voteOnSubQuestions (askVotingEngine config options) redFlagFilter prov calls1
                     (Decomposition.subQuestions plan) of
                None \<Rightarrow> None
              | Some (subResults, calls2) \<Rightarrow>
                  (case synthesize synthesizer prov calls2 q subResults of
                     Inl e \<Rightarrow> Some (Inl e)
                   | Inr ((finalText, synthesisConfidence), _) \<Rightarrow>
                       Some (Inr
                         \<lparr> MakerResult.answer = finalText,
                           MakerResult.confidence =
                             calculateOverallConfidence subResults synthesisConfidence,
                           MakerResult.consensusReached =
                             list_all SubQuestionResult.consensusReached subResults,
                           isDecomposed = (length (Decomposition.subQuestions plan) > 1),
                           MakerResult.subQuestions = subResults,
                           MakerResult.synthesisStrategy = Decomposition.synthesisStrategy plan,
                           MakerResult.votingStats =
                             aggregateVotingStats (makerVotingEngine config) subResults,
                           totalTokens = 0 \<rparr>))))"

section \<open>Notions used to state the properties\<close>

definition rejected :: "RedFlagFilter \<Rightarrow> Vote \<Rightarrow> bool" where
  \<comment> \<open>A sample that the loop discards: the filter flags it, or its normalized answer is
      empty.\<close>
  "rejected flt v \<longleftrightarrow>
     RedFlagResult.redFlagged
       (check flt (Vote.answer v) (case parseSucceeded v of None \<Rightarrow> True | Some b \<Rightarrow> b))
     \<or> normalizeAnswer (Vote.answer v) = []"

definition emptyResponseObject :: ResponseObject where
  \<comment> \<open>The object \<^verbatim>\<open>{}\<close>.\<close>
  "emptyResponseObject =
     \<lparr> ResponseObject.answer = None, ResponseObject.confidence = None,
       ResponseObject.reasoning = None, ResponseObject.needsDecomposition = None,
       ResponseObject.complexity = None, ResponseObject.questionType = None,
       ResponseObject.subQuestions = None, ResponseObject.synthesisStrategy = None,
       ResponseObject.finalAnswer = None \<rparr>"

definition answerResponse :: "string \<Rightarrow> ConfidenceLevel \<Rightarrow> outcome" where
  \<comment> \<open>The response \<^verbatim>\<open>{ answer, confidence }\<close> that the tests' mock provider gives.\<close>
  "answerResponse a c =
     Returns (Object (emptyResponseObject\<lparr> ResponseObject.answer := Some a,
                                           ResponseObject.confidence := Some c \<rparr>))"

definition sequentialResponses :: "outcome list \<Rightarrow> LLMProvider" where
  \<comment> \<open>A provider that gives the listed outcomes in order and rejects afterwards.\<close>
  "sequentialResponses rs n = (if n < length rs then rs ! n else Throws (Error ''exhausted''))"

definition decomposingProvider :: "outcome list \<Rightarrow> LLMProvider" where
  \<comment> \<open>A provider for a question that is split in two: a classification that asks for
      decomposition, a plan of two sub-questions, the given outcomes for the votes, and a
      synthesis.\<close>
  "decomposingProvider votes =
     sequentialResponses
       ([Returns (Object (emptyResponseObject\<lparr> ResponseObject.needsDecomposition := Some True \<rparr>)),
         Returns (Object (emptyResponseObject
           \<lparr> ResponseObject.subQuestions :=
                Some [\<lparr> RawSubQuestion.id = Some ''sq1'',
                         RawSubQuestion.question = Some ''What is sub-question 1?'',
                         RawSubQuestion.dependencies = Some [], RawSubQuestion.type = Some Factual \<rparr>,
                      \<lparr> RawSubQuestion.id = Some ''sq2'',
                         RawSubQuestion.question = Some ''What is sub-question 2?'',
                         RawSubQuestion.dependencies = Some [], RawSubQuestion.type = Some Factual \<rparr>],
              ResponseObject.synthesisStrategy := Some ''combine'' \<rparr>))]
        @ votes
        @ [Returns (Object (emptyResponseObject
             \<lparr> ResponseObject.finalAnswer := Some ''Combined answer.'',
               ResponseObject.confidence := Some High \<rparr>))])"

definition makerConfig :: "LLMProvider \<Rightarrow> MakerConfig" where
  \<comment> \<open>The configuration that names a provider and nothing else.\<close>
  "makerConfig prov =
     \<lparr> provider = prov, decomposition = None, voting = None, redFlags = None, synthesis = None \<rparr>"

fun collapsed :: "string \<Rightarrow> bool" where
  \<comment> \<open>Every white-space character is a space, and no white space follows it.\<close>
  "collapsed [] \<longleftrightarrow> True"
| "collapsed (c # cs) \<longleftrightarrow>
     (if isWhiteSpace c then c = CHR '' '' \<and> (cs = [] \<or> \<not> isWhiteSpace (hd cs)) else True)
     \<and> collapsed cs"

subsection \<open>What a tally should hold, said in terms of the votes\<close>

definition answerKey :: "Vote \<Rightarrow> string" where
  "answerKey v = normalizeAnswer (Vote.answer v)"

definition votesFor :: "string \<Rightarrow> Vote list \<Rightarrow> Vote list" where
  \<comment> \<open>The votes for one normalized answer, in the order they were cast.\<close>
  "votesFor x vs = filter (\<lambda>v. answerKey v = x) vs"

definition bestConfidence :: "ConfidenceLevel list \<Rightarrow> ConfidenceLevel" where
  \<comment> \<open>The best of a list of confidences, in the order high, medium, low.\<close>
  "bestConfidence cs = (if High \<in> set cs then High else if Medium \<in> set cs then Medium else Low)"

definition bucketOf :: "string \<Rightarrow> Vote list \<Rightarrow> VoteData option" where
  \<comment> \<open>The bucket of a normalized answer: how many votes it has, the answer text of the
      first of them, and the best confidence among them.\<close>
  "bucketOf x vs =
     (case votesFor x vs of
        [] \<Rightarrow> None
      | w # ws \<Rightarrow>
          Some \<lparr> count = int (length (w # ws)), originalAnswer = Vote.answer w,
                 VoteData.confidence = bestConfidence (map Vote.confidence (w # ws)) \<rparr>)"

definition distinctAnswers :: "Vote list \<Rightarrow> string list" where
  "distinctAnswers vs = remdups (map answerKey vs)"

definition answerCounts :: "Vote list \<Rightarrow> int list" where
  \<comment> \<open>One count for each distinct normalized answer.\<close>
  "answerCounts vs = map (\<lambda>x. int (length (votesFor x vs))) (distinctAnswers vs)"

definition highest :: "int list \<Rightarrow> int" where
  "highest cs = (if cs = [] then 0 else Max (set cs))"

definition secondHighest :: "int list \<Rightarrow> int" where
  \<comment> \<open>The highest count once one occurrence of the highest is set aside; 0 when there is
      at most one count.\<close>
  "secondHighest cs = (if length cs \<le> 1 then 0 else Max (set (remove1 (Max (set cs)) cs)))"

definition leadingCount :: "Vote list \<Rightarrow> int" where
  "leadingCount vs = highest (answerCounts vs)"

definition runnerUpCount :: "Vote list \<Rightarrow> int" where
  "runnerUpCount vs = secondHighest (answerCounts vs)"

definition admitted :: "RedFlagFilter \<Rightarrow> Vote list \<Rightarrow> Vote list" where
  \<comment> \<open>The samples that the voting loop tallies.\<close>
  "admitted flt vs = filter (\<lambda>v. \<not> rejected flt v) vs"

definition counted :: "Vote list \<Rightarrow> Vote list" where
  \<comment> \<open>The votes that \<^verbatim>\<open>determineWinner\<close> tallies: not red-flagged, with a normalized
      answer that is not empty.\<close>
  "counted vs = filter (\<lambda>v. Vote.redFlagged v \<noteq> Some True \<and> answerKey v \<noteq> []) vs"

definition consistent :: "RedFlagFilter \<Rightarrow> VotingState \<Rightarrow> bool" where
  \<comment> \<open>The tally of a state holds one bucket for each answer of the samples admitted so
      far.\<close>
  "consistent flt st \<longleftrightarrow>
     distinct (map fst (voteCounts st))
     \<and> map_of (voteCounts st) = (\<lambda>x. bucketOf x (admitted flt (allVotes st)))"

definition castVote :: "nat \<Rightarrow> string \<Rightarrow> ConfidenceLevel \<Rightarrow> Vote" where
  \<comment> \<open>A vote as the tests write it, \<^verbatim>\<open>{ voteIndex, answer, confidence, temperature }\<close>: the
      optional fields are absent.\<close>
  "castVote i a c =
     \<lparr> voteIndex = i, Vote.answer = a, Vote.confidence = c, parseSucceeded = None,
       Vote.redFlagged = None, redFlagReason = None \<rparr>"

section \<open>Red-flag filter on a parse failure\<close>

text \<open>
  Claim C6 says that \<open>check answer False\<close> flags every answer with the reason
  \<^verbatim>\<open>invalid_format\<close>, whatever its length. The code tests emptiness and both length
  bounds before it looks at the parse flag: the empty answer and the answer "Hi" are
  flagged \<^verbatim>\<open>response_too_short\<close> under the default thresholds.
\<close>

theorem check_parse_failure_counterexample:
  "reason (check (newRedFlagFilter emptyRedFlagConfig) [] False) = Some ResponseTooShort
   \<and> reason (check (newRedFlagFilter emptyRedFlagConfig) [] False) \<noteq> Some InvalidFormat
   \<and> reason (check (newRedFlagFilter emptyRedFlagConfig) ''Hi'' False) = Some ResponseTooShort"
  by code_simp

text \<open>
  Claim C6, amended: \<open>check answer False\<close> flags every answer. The reason is
  \<^verbatim>\<open>invalid_format\<close> exactly when the answer is not empty, its estimated token count is at
  most \<open>maxTokens\<close> and its trimmed length is at least \<open>minChars\<close>; it is
  \<^verbatim>\<open>response_too_long\<close> exactly when the answer is not empty and the estimate exceeds
  \<open>maxTokens\<close>, and \<^verbatim>\<open>response_too_short\<close> in the remaining cases.
\<close>

theorem check_parse_failure:
  "RedFlagResult.redFlagged (check flt ans False)
   \<and> (reason (check flt ans False) = Some InvalidFormat
        \<longleftrightarrow> ans \<noteq> [] \<and> estimatedTokens (trim ans) \<le> RedFlagFilter.maxTokens flt
            \<and> RedFlagFilter.minChars flt \<le> int (length (trim ans)))
   \<and> (reason (check flt ans False) = Some ResponseTooLong
        \<longleftrightarrow> ans \<noteq> [] \<and> estimatedTokens (trim ans) > RedFlagFilter.maxTokens flt)
   \<and> (reason (check flt ans False) = Some ResponseTooShort
        \<longleftrightarrow> ans = [] \<or> (estimatedTokens (trim ans) \<le> RedFlagFilter.maxTokens flt
            \<and> int (length (trim ans)) < RedFlagFilter.minChars flt))"
  by (auto simp: check_def flagged_def Let_def)

theorem check_parse_failure_witness:
  "reason (check (newRedFlagFilter emptyRedFlagConfig) ''Some answer that failed to parse.'' False)
     = Some InvalidFormat
   \<and> RedFlagResult.redFlagged
       (check (newRedFlagFilter emptyRedFlagConfig) ''Some answer that failed to parse.'' False)"
proof -
  have "''Some answer that failed to parse.'' \<noteq> []
        \<and> estimatedTokens (trim ''Some answer that failed to parse.'')
             \<le> RedFlagFilter.maxTokens (newRedFlagFilter emptyRedFlagConfig)
        \<and> RedFlagFilter.minChars (newRedFlagFilter emptyRedFlagConfig)
             \<le> int (length (trim ''Some answer that failed to parse.''))"
    by code_simp
  then show ?thesis
    using check_parse_failure [of "newRedFlagFilter emptyRedFlagConfig"
        "''Some answer that failed to parse.''"]
    by blast
qed

section \<open>Synthesizer: the cases without an oracle call\<close>

text \<open>
  Claim C8: with no sub-result, \<open>synthesize\<close> returns "Unable to determine answer." at
  confidence low; with exactly one sub-result it returns that sub-result's answer and
  confidence; with synthesis disabled it returns the answer and confidence of the first
  sub-result. In all three cases the result does not depend on the oracle and the count of
  oracle calls is unchanged.
\<close>

theorem synthesize_degenerate:
  "synthesize s prov calls q [] = Inr ((''Unable to determine answer.'', Low), calls)
   \<and> synthesize s prov calls q [sa]
       = Inr ((SubQuestionResult.answer sa, SubQuestionResult.confidence sa), calls)
   \<and> (\<not> Synthesizer.enabled s \<longrightarrow>
        synthesize s prov calls q (sa # others)
          = Inr ((SubQuestionResult.answer sa, SubQuestionResult.confidence sa), calls))"
  by (simp add: synthesize_def)

theorem synthesize_degenerate_witness:
  "synthesize (newSynthesizer (emptySynthesisConfig\<lparr> SynthesisConfig.enabled := Some False \<rparr>))
       (\<lambda>n. Throws (Error ''no call expected'')) 7 ''What is the capital of France?''
       [\<lparr> SubQuestionResult.question = ''What is the capital of France?'',
          SubQuestionResult.answer = ''Paris is the capital of France.'',
          SubQuestionResult.confidence = Medium,
          SubQuestionResult.consensusReached = True,
          SubQuestionResult.votingStats =
            \<lparr> totalVotes = 5, validVotes = 5, redFlaggedVotes = 0, winningVoteCount = 4,
              margin = 3, VotingStats.k = 2 \<rparr> \<rparr>]
     = Inr ((''Paris is the capital of France.'', Medium), 7)
   \<and> synthesize (newSynthesizer emptySynthesisConfig)
       (\<lambda>n. Throws (Error ''no call expected'')) 7 ''What is the capital of France?'' []
     = Inr ((''Unable to determine answer.'', Low), 7)"
proof -
  have off: "\<not> Synthesizer.enabled
               (newSynthesizer (emptySynthesisConfig\<lparr> SynthesisConfig.enabled := Some False \<rparr>))"
    by (simp add: newSynthesizer_def)
  show ?thesis
    using off
      synthesize_degenerate
        [of "newSynthesizer (emptySynthesisConfig\<lparr> SynthesisConfig.enabled := Some False \<rparr>)"
            "\<lambda>n. Throws (Error ''no call expected'')" 7 "''What is the capital of France?''" _ "[]"]
      synthesize_degenerate
        [of "newSynthesizer emptySynthesisConfig"
            "\<lambda>n. Throws (Error ''no call expected'')" 7 "''What is the capital of France?''"]
    by simp
qed

section \<open>Decomposer: decomposition disabled\<close>

text \<open>
  Claim C9: with decomposition disabled, \<open>decompose\<close> makes no oracle call (the result does
  not depend on the oracle and the count of calls is unchanged) and returns exactly one
  sub-question, whose text is the input text, with id sq1, no dependencies, type factual
  and index 0, the synthesis strategy none, and a classification whose
  \<open>needsDecomposition\<close> is false.
\<close>

theorem decompose_disabled:
  assumes "\<not> Decomposer.enabled d"
  shows "decompose d prov calls q ctx =
           Inr (\<lparr> Decomposition.subQuestions =
                    [\<lparr> SubQuestion.id = ''sq1'', SubQuestion.question = q,
                       SubQuestion.dependencies = [], SubQuestion.type = Factual,
                       index = Some 0 \<rparr>],
                  Decomposition.synthesisStrategy = ''none'',
                  classification =
                    \<lparr> Classification.needsDecomposition = False, Classification.complexity = 1,
                      Classification.questionType = Factual, Classification.reasoning = None \<rparr> \<rparr>,
                calls)"
  using assms by (simp add: decompose_def createSingleSubQuestion_def)

theorem decompose_disabled_witness:
  "decompose (newDecomposer (emptyDecompositionConfig\<lparr> DecompositionConfig.enabled := Some False \<rparr>))
       (\<lambda>n. Throws (Error ''no call expected'')) 0 ''Compare Paris and London.'' None
     = Inr (\<lparr> Decomposition.subQuestions =
                [\<lparr> SubQuestion.id = ''sq1'', SubQuestion.question = ''Compare Paris and London.'',
                   SubQuestion.dependencies = [], SubQuestion.type = Factual,
                   index = Some 0 \<rparr>],
              Decomposition.synthesisStrategy = ''none'',
              classification =
                \<lparr> Classification.needsDecomposition = False, Classification.complexity = 1,
                  Classification.questionType = Factual, Classification.reasoning = None \<rparr> \<rparr>,
            0)"
proof -
  have off: "\<not> Decomposer.enabled
               (newDecomposer (emptyDecompositionConfig\<lparr> DecompositionConfig.enabled := Some False \<rparr>))"
    by (simp add: newDecomposer_def)
  show ?thesis
    by (rule decompose_disabled [OF off])
qed

section \<open>The voting loop need not end\<close>

lemma voteIteration_rejected:
  "rejected flt v \<Longrightarrow> \<exists>st'. voteIteration eng flt v st = Continue st'"
  by (auto simp: rejected_def voteIteration_def Let_def)

text \<open>When every sample is discarded, each pass through the loop ends in \<^verbatim>\<open>continue\<close>,
  before the test of \<open>maxVotes\<close> is reached: the loop returns nothing.\<close>

lemma voteLoop_rejected_forever:
  assumes rej: "\<And>n. rejected flt (generateVote prov (fc + n) n)"
  shows "voteLoop eng flt prov fc st = None"
proof (rule ccontr)
  assume "voteLoop eng flt prov fc st \<noteq> None"
  then obtain y where y: "voteLoop eng flt prov fc st = Some y" by auto
  from y have "\<not> (\<forall>n. rejected flt (generateVote prov (fc + n) n))"
  proof (rule voteLoop.raw_induct [rotated,
        where P = "\<lambda>eng flt prov fc st y. \<not> (\<forall>n. rejected flt (generateVote prov (fc + n) n))"])
    fix loop eng flt prov fc st y
    assume IH: "\<And>eng flt prov fc st y. loop eng flt prov fc st = Some y
                  \<Longrightarrow> \<not> (\<forall>n. rejected flt (generateVote prov (fc + n) n))"
      and body: "(let voteIdx = length (allVotes st);
                      vote = generateVote prov (fc + voteIdx) voteIdx
                  in case voteIteration eng flt vote st of
                       Continue st' \<Rightarrow> loop eng flt prov fc st'
                     | Return r \<Rightarrow> Some r) = Some y"
    show "\<not> (\<forall>n. rejected flt (generateVote prov (fc + n) n))"
    proof
      assume all: "\<forall>n. rejected flt (generateVote prov (fc + n) n)"
      then have "rejected flt (generateVote prov (fc + length (allVotes st)) (length (allVotes st)))"
        by blast
      then obtain st' where
        "voteIteration eng flt (generateVote prov (fc + length (allVotes st)) (length (allVotes st))) st
           = Continue st'"
        using voteIteration_rejected by blast
      with body have "loop eng flt prov fc st' = Some y"
        by (simp add: Let_def)
      from IH [OF this] all show False by blast
    qed
  qed
  with rej show False by blast
qed

lemma generateVote_throws_rejected: "rejected flt (generateVote (\<lambda>n. Throws e) c n)"
  by (simp add: rejected_def generateVote_def check_def flagged_def)

lemma generateVote_short_rejected:
  assumes "a \<noteq> []" "int (length (trim a)) < RedFlagFilter.minChars flt"
  shows "rejected flt (generateVote (\<lambda>n. answerResponse a c) fc n)"
  using assms
  by (simp add: rejected_def generateVote_def answerResponse_def check_def flagged_def Let_def)

text \<open>
  Claim C1 says that \<open>voteUntilConsensus\<close> stops by the time the sample count reaches
  \<open>maxVotes\<close> for every oracle, also for one whose every sample is red-flagged. On the
  code it does not: for the oracle whose every call throws, whatever \<open>k\<close>, \<open>maxVotes\<close>
  and the filter's thresholds are, \<open>voteUntilConsensus\<close> never returns.
\<close>

theorem voteUntilConsensus_never_returns:
  "voteUntilConsensus eng (\<lambda>n. Throws e) firstCall flt = None"
  unfolding voteUntilConsensus_def
  by (rule voteLoop_rejected_forever) (rule generateVote_throws_rejected)

theorem voteUntilConsensus_never_returns_witness:
  "voteUntilConsensus (newVotingEngine \<lparr> VotingConfig.k = Some 2, maxVotes = Some 4 \<rparr>)
     (\<lambda>n. Throws (Error ''API Error'')) 0 (newRedFlagFilter emptyRedFlagConfig) = None"
  by (rule voteUntilConsensus_never_returns)

text \<open>The same holds for an oracle that answers "Hi" to every call, as in the repository's
  test of the red-flag events.\<close>

lemma voteUntilConsensus_short_answers_never_returns:
  "voteUntilConsensus eng (\<lambda>n. answerResponse ''Hi'' High) firstCall
     (newRedFlagFilter emptyRedFlagConfig) = None"
  unfolding voteUntilConsensus_def
proof (rule voteLoop_rejected_forever)
  fix n
  have "int (length (trim ''Hi'')) < RedFlagFilter.minChars (newRedFlagFilter emptyRedFlagConfig)"
    by code_simp
  then show "rejected (newRedFlagFilter emptyRedFlagConfig)
               (generateVote (\<lambda>n. answerResponse ''Hi'' High) (firstCall + n) n)"
    by (intro generateVote_short_rejected) simp_all
qed

section \<open>The orchestrator under a failing oracle\<close>

text \<open>
  Claim C4 says that \<open>ask\<close> always resolves to a result and never raises, also when oracle
  calls throw. On the code, with the provider of the repository's test "should handle
  provider errors gracefully" (every call rejects, decomposition disabled), \<open>ask\<close> neither
  resolves nor rejects: the voting session of the only sub-question never returns.
\<close>

theorem ask_failing_provider_never_resolves:
  assumes "provider config = (\<lambda>n. Throws e)"
    and "Option.bind (decomposition config) DecompositionConfig.enabled = Some False"
  shows "ask config q options = None"
proof -
  have off: "\<not> Decomposer.enabled
                 (newDecomposer (orDefault (decomposition config) emptyDecompositionConfig))"
    using assms(2) by (cases "decomposition config") (auto simp: orDefault_def newDecomposer_def)
  have "voteUntilConsensus eng (\<lambda>n. Throws e) 0 flt = None" for eng flt
    unfolding voteUntilConsensus_def
    by (rule voteLoop_rejected_forever) (rule generateVote_throws_rejected)
  with off show ?thesis
    using assms(1) by (simp add: ask_def Let_def decompose_def)
qed

theorem ask_failing_provider_never_resolves_witness:
  "ask ((makerConfig (\<lambda>n. Throws (Error ''API Error'')))
          \<lparr> decomposition :=
               Some (emptyDecompositionConfig\<lparr> DecompositionConfig.enabled := Some False \<rparr>) \<rparr>)
       ''Test question?'' None = None"
  by (rule ask_failing_provider_never_resolves) (simp_all add: makerConfig_def)

text \<open>With decomposition left enabled, a throw of the classification call is not caught
  anywhere: \<open>ask\<close> rejects with the provider's error.\<close>

lemma ask_classification_throws:
  assumes "provider config 0 = Throws e"
    and "decomposition config = None"
  shows "ask config q options = Some (Inl e)"
  using assms
  by (simp add: ask_def Let_def decompose_def classify_def orDefault_def newDecomposer_def
        emptyDecompositionConfig_def)

section \<open>What a finished run of the orchestrator returns\<close>

lemma voteIteration_Return_k:
  "voteIteration eng flt v st = Return r \<Longrightarrow> VotingStats.k (stats r) = VotingEngine.k eng"
  by (auto simp: voteIteration_def Let_def consensusResult_def cutoffResult_def
           split: if_splits option.splits)

lemma voteLoop_k:
  assumes "voteLoop eng flt prov fc st = Some r"
  shows "VotingStats.k (stats r) = VotingEngine.k eng"
  using assms
proof (rule voteLoop.raw_induct [rotated,
        where P = "\<lambda>eng flt prov fc st r. VotingStats.k (stats r) = VotingEngine.k eng"])
  fix loop eng flt prov fc st y
  assume IH: "\<And>eng flt prov fc st y. loop eng flt prov fc st = Some y
                \<Longrightarrow> VotingStats.k (stats y) = VotingEngine.k eng"
    and body: "(let voteIdx = length (allVotes st);
                    vote = generateVote prov (fc + voteIdx) voteIdx
                in case voteIteration eng flt vote st of
                     Continue st' \<Rightarrow> loop eng flt prov fc st'
                   | Return r \<Rightarrow> Some r) = Some y"
  show "VotingStats.k (stats y) = VotingEngine.k eng"
  proof (cases "voteIteration eng flt
                  (generateVote prov (fc + length (allVotes st)) (length (allVotes st))) st")
    case (Continue st')
    with body have "loop eng flt prov fc st' = Some y" by (simp add: Let_def)
    then show ?thesis by (rule IH)
  next
    case (Return r)
    with body have "r = y" by (simp add: Let_def)
    with Return show ?thesis using voteIteration_Return_k by blast
  qed
qed

lemma voteOnSubQuestions_results:
  "voteOnSubQuestions eng flt prov calls sqs = Some (subResults, calls')
   \<Longrightarrow> length subResults = length sqs
       \<and> (\<forall>sr \<in> set subResults. VotingStats.k (SubQuestionResult.votingStats sr) = VotingEngine.k eng)"
proof (induction sqs arbitrary: calls subResults calls')
  case Nil
  then show ?case by simp
next
  case (Cons sq sqs)
  from Cons.prems obtain result rest where
    res: "voteUntilConsensus eng prov calls flt = Some result"
    and rest: "voteOnSubQuestions eng flt prov (calls + nat (totalVotes (stats result))) sqs
                 = Some (rest, calls')"
    and eq: "subResults = toSubResult sq result # rest"
    by (auto split: option.splits)
  from res have "VotingStats.k (stats result) = VotingEngine.k eng"
    unfolding voteUntilConsensus_def by (rule voteLoop_k)
  with Cons.IH [OF rest] eq show ?case
    by (simp add: toSubResult_def)
qed

lemma foldl_add_sum_list:
  "foldl (\<lambda>sum r. sum + f r) (a::int) xs = a + sum_list (map f xs)"
  by (induction xs arbitrary: a) simp_all

lemma decompose_nonempty:
  "decompose d prov calls q ctx = Inr (plan, calls') \<Longrightarrow> Decomposition.subQuestions plan \<noteq> []"
  by (auto simp: decompose_def Let_def split: if_splits sum.splits outcome.splits prod.splits)

lemma ask_resolved:
  assumes "ask config q options = Some (Inr r)"
  obtains plan calls1 calls2 where
    "decompose (newDecomposer (orDefault (decomposition config) emptyDecompositionConfig))
        (provider config) 0 q (Option.bind options contextText) = Inr (plan, calls1)"
    "voteOnSubQuestions (askVotingEngine config options)
        (newRedFlagFilter (orDefault (redFlags config) emptyRedFlagConfig)) (provider config) calls1
        (Decomposition.subQuestions plan) = Some (MakerResult.subQuestions r, calls2)"
    "MakerResult.consensusReached r
       = list_all SubQuestionResult.consensusReached (MakerResult.subQuestions r)"
    "isDecomposed r = (length (Decomposition.subQuestions plan) > 1)"
    "MakerResult.votingStats r
       = aggregateVotingStats (makerVotingEngine config) (MakerResult.subQuestions r)"
  using assms
  by (auto simp: ask_def Let_def split: sum.splits option.splits prod.splits)

lemma ask_sub_results:
  assumes "ask config q options = Some (Inr r)"
  shows "MakerResult.subQuestions r \<noteq> []"
    and "isDecomposed r \<longleftrightarrow> 2 \<le> length (MakerResult.subQuestions r)"
    and "\<forall>sr \<in> set (MakerResult.subQuestions r).
           VotingStats.k (SubQuestionResult.votingStats sr)
             = VotingEngine.k (askVotingEngine config options)"
    and "MakerResult.votingStats r
           = aggregateVotingStats (makerVotingEngine config) (MakerResult.subQuestions r)"
    and "MakerResult.consensusReached r
           = list_all SubQuestionResult.consensusReached (MakerResult.subQuestions r)"
proof -
  from assms obtain plan calls1 calls2 where
    dec: "decompose (newDecomposer (orDefault (decomposition config) emptyDecompositionConfig))
        (provider config) 0 q (Option.bind options contextText) = Inr (plan, calls1)"
    and votes: "voteOnSubQuestions (askVotingEngine config options)
        (newRedFlagFilter (orDefault (redFlags config) emptyRedFlagConfig)) (provider config) calls1
        (Decomposition.subQuestions plan) = Some (MakerResult.subQuestions r, calls2)"
    and cons: "MakerResult.consensusReached r
       = list_all SubQuestionResult.consensusReached (MakerResult.subQuestions r)"
    and isd: "isDecomposed r = (length (Decomposition.subQuestions plan) > 1)"
    and agg: "MakerResult.votingStats r
       = aggregateVotingStats (makerVotingEngine config) (MakerResult.subQuestions r)"
    by (rule ask_resolved)
  note res = voteOnSubQuestions_results [OF votes]
  from res decompose_nonempty [OF dec] show "MakerResult.subQuestions r \<noteq> []" by auto
  from res isd show "isDecomposed r \<longleftrightarrow> 2 \<le> length (MakerResult.subQuestions r)" by auto
  from res show "\<forall>sr \<in> set (MakerResult.subQuestions r).
           VotingStats.k (SubQuestionResult.votingStats sr)
             = VotingEngine.k (askVotingEngine config options)" by simp
  from agg show "MakerResult.votingStats r
           = aggregateVotingStats (makerVotingEngine config) (MakerResult.subQuestions r)" .
  from cons show "MakerResult.consensusReached r
           = list_all SubQuestionResult.consensusReached (MakerResult.subQuestions r)" .
qed

lemma aggregate_sums:
  assumes "2 \<le> length subResults"
  shows "totalVotes (aggregateVotingStats eng subResults)
           = sum_list (map (\<lambda>sr. totalVotes (SubQuestionResult.votingStats sr)) subResults)"
    and "validVotes (aggregateVotingStats eng subResults)
           = sum_list (map (\<lambda>sr. validVotes (SubQuestionResult.votingStats sr)) subResults)"
    and "redFlaggedVotes (aggregateVotingStats eng subResults)
           = sum_list (map (\<lambda>sr. redFlaggedVotes (SubQuestionResult.votingStats sr)) subResults)"
    and "VotingStats.k (aggregateVotingStats eng subResults) = VotingEngine.k eng"
proof -
  from assms have "subResults \<noteq> []" "length subResults \<noteq> 1" by auto
  then show
    "totalVotes (aggregateVotingStats eng subResults)
       = sum_list (map (\<lambda>sr. totalVotes (SubQuestionResult.votingStats sr)) subResults)"
    "validVotes (aggregateVotingStats eng subResults)
       = sum_list (map (\<lambda>sr. validVotes (SubQuestionResult.votingStats sr)) subResults)"
    "redFlaggedVotes (aggregateVotingStats eng subResults)
       = sum_list (map (\<lambda>sr. redFlaggedVotes (SubQuestionResult.votingStats sr)) subResults)"
    "VotingStats.k (aggregateVotingStats eng subResults) = VotingEngine.k eng"
    by (simp_all add: aggregateVotingStats_def foldl_add_sum_list)
qed

lemma Min_of_map:
  fixes f :: "'a \<Rightarrow> int"
  assumes "xs \<noteq> []"
  shows "(\<exists>x \<in> set xs. Min (set (map f xs)) = f x) \<and> (\<forall>x \<in> set xs. Min (set (map f xs)) \<le> f x)"
proof -
  have fin: "finite (set (map f xs))" and ne: "set (map f xs) \<noteq> {}"
    using assms by simp_all
  have "Min (set (map f xs)) \<in> set (map f xs)" using fin ne by (rule Min_in)
  then have "\<exists>x \<in> set xs. Min (set (map f xs)) = f x" by auto
  moreover have "Min (set (map f xs)) \<le> f x" if "x \<in> set xs" for x
    using that fin by (intro Min_le) auto
  ultimately show ?thesis by blast
qed

lemma aggregate_minima:
  assumes "2 \<le> length subResults"
  shows "(\<exists>sr \<in> set subResults.
            winningVoteCount (aggregateVotingStats eng subResults)
              = winningVoteCount (SubQuestionResult.votingStats sr))
       \<and> (\<forall>sr \<in> set subResults.
            winningVoteCount (aggregateVotingStats eng subResults)
              \<le> winningVoteCount (SubQuestionResult.votingStats sr))"
    and "(\<exists>sr \<in> set subResults.
            margin (aggregateVotingStats eng subResults) = margin (SubQuestionResult.votingStats sr))
       \<and> (\<forall>sr \<in> set subResults.
            margin (aggregateVotingStats eng subResults) \<le> margin (SubQuestionResult.votingStats sr))"
proof -
  from assms have ne: "subResults \<noteq> []" "length subResults \<noteq> 1" by auto
  have W: "winningVoteCount (aggregateVotingStats eng subResults)
             = Min (set (map (\<lambda>r. winningVoteCount (SubQuestionResult.votingStats r)) subResults))"
    and M: "margin (aggregateVotingStats eng subResults)
             = Min (set (map (\<lambda>r. margin (SubQuestionResult.votingStats r)) subResults))"
    using ne by (simp_all add: aggregateVotingStats_def)
  show "(\<exists>sr \<in> set subResults.
            winningVoteCount (aggregateVotingStats eng subResults)
              = winningVoteCount (SubQuestionResult.votingStats sr))
       \<and> (\<forall>sr \<in> set subResults.
            winningVoteCount (aggregateVotingStats eng subResults)
              \<le> winningVoteCount (SubQuestionResult.votingStats sr))"
    unfolding W using ne(1) by (rule Min_of_map)
  show "(\<exists>sr \<in> set subResults.
            margin (aggregateVotingStats eng subResults) = margin (SubQuestionResult.votingStats sr))
       \<and> (\<forall>sr \<in> set subResults.
            margin (aggregateVotingStats eng subResults) \<le> margin (SubQuestionResult.votingStats sr))"
    unfolding M using ne(1) by (rule Min_of_map)
qed

text \<open>
  Claim C7: in the result of \<open>ask\<close>, \<open>consensusReached\<close> is the conjunction of the
  sub-results' \<open>consensusReached\<close>; and when the plan has two or more sub-questions
  (\<open>isDecomposed\<close>, which is the same as two or more sub-results), the aggregated
  \<open>totalVotes\<close>, \<open>validVotes\<close> and \<open>redFlaggedVotes\<close> are the sums over the sub-results, and
  the aggregated \<open>winningVoteCount\<close> and \<open>margin\<close> are the least values among the
  sub-results.
\<close>

theorem ask_aggregation:
  assumes "ask config q options = Some (Inr r)"
  shows "(MakerResult.consensusReached r
            \<longleftrightarrow> (\<forall>sr \<in> set (MakerResult.subQuestions r). SubQuestionResult.consensusReached sr))
       \<and> (isDecomposed r \<longleftrightarrow> 2 \<le> length (MakerResult.subQuestions r))
       \<and> (isDecomposed r \<longrightarrow>
            totalVotes (MakerResult.votingStats r)
              = sum_list (map (\<lambda>sr. totalVotes (SubQuestionResult.votingStats sr))
                            (MakerResult.subQuestions r))
          \<and> validVotes (MakerResult.votingStats r)
              = sum_list (map (\<lambda>sr. validVotes (SubQuestionResult.votingStats sr))
                            (MakerResult.subQuestions r))
          \<and> redFlaggedVotes (MakerResult.votingStats r)
              = sum_list (map (\<lambda>sr. redFlaggedVotes (SubQuestionResult.votingStats sr))
                            (MakerResult.subQuestions r))
          \<and> (\<exists>sr \<in> set (MakerResult.subQuestions r).
                winningVoteCount (MakerResult.votingStats r)
                  = winningVoteCount (SubQuestionResult.votingStats sr))
          \<and> (\<forall>sr \<in> set (MakerResult.subQuestions r).
                winningVoteCount (MakerResult.votingStats r)
                  \<le> winningVoteCount (SubQuestionResult.votingStats sr))
          \<and> (\<exists>sr \<in> set (MakerResult.subQuestions r).
                margin (MakerResult.votingStats r) = margin (SubQuestionResult.votingStats sr))
          \<and> (\<forall>sr \<in> set (MakerResult.subQuestions r).
                margin (MakerResult.votingStats r) \<le> margin (SubQuestionResult.votingStats sr)))"
proof (intro conjI impI)
  note facts = ask_sub_results [OF assms]
  show "MakerResult.consensusReached r
          \<longleftrightarrow> (\<forall>sr \<in> set (MakerResult.subQuestions r). SubQuestionResult.consensusReached sr)"
    using facts(5) by (simp add: list_all_iff)
  show "isDecomposed r \<longleftrightarrow> 2 \<le> length (MakerResult.subQuestions r)"
    by (rule facts(2))
  assume "isDecomposed r"
  with facts(2) have two: "2 \<le> length (MakerResult.subQuestions r)" by simp
  show "totalVotes (MakerResult.votingStats r)
          = sum_list (map (\<lambda>sr. totalVotes (SubQuestionResult.votingStats sr))
                        (MakerResult.subQuestions r))"
    unfolding facts(4) using two by (rule aggregate_sums)
  show "validVotes (MakerResult.votingStats r)
          = sum_list (map (\<lambda>sr. validVotes (SubQuestionResult.votingStats sr))
                        (MakerResult.subQuestions r))"
    unfolding facts(4) using two by (rule aggregate_sums)
  show "redFlaggedVotes (MakerResult.votingStats r)
          = sum_list (map (\<lambda>sr. redFlaggedVotes (SubQuestionResult.votingStats sr))
                        (MakerResult.subQuestions r))"
    unfolding facts(4) using two by (rule aggregate_sums)
  show "\<exists>sr \<in> set (MakerResult.subQuestions r).
          winningVoteCount (MakerResult.votingStats r)
            = winningVoteCount (SubQuestionResult.votingStats sr)"
    unfolding facts(4) using aggregate_minima(1) [OF two] by blast
  show "\<forall>sr \<in> set (MakerResult.subQuestions r).
          winningVoteCount (MakerResult.votingStats r)
            \<le> winningVoteCount (SubQuestionResult.votingStats sr)"
    unfolding facts(4) using aggregate_minima(1) [OF two] by blast
  show "\<exists>sr \<in> set (MakerResult.subQuestions r).
          margin (MakerResult.votingStats r) = margin (SubQuestionResult.votingStats sr)"
    unfolding facts(4) using aggregate_minima(2) [OF two] by blast
  show "\<forall>sr \<in> set (MakerResult.subQuestions r).
          margin (MakerResult.votingStats r) \<le> margin (SubQuestionResult.votingStats sr)"
    unfolding facts(4) using aggregate_minima(2) [OF two] by blast
qed

text \<open>A run on a question split in two: the first sub-question is settled by three equal
  answers; the second sees one red-flagged sample and one dissenting answer before four
  equal ones. The totals are sums, the winning count and the margin are the smaller
  ones.\<close>

theorem ask_aggregation_witness:
  "\<exists>r. ask (makerConfig (decomposingProvider
               [answerResponse ''Paris'' High, answerResponse ''Paris'' High,
                answerResponse ''Paris'' High,
                answerResponse ''Hi'' High, answerResponse ''London'' Medium,
                answerResponse ''Paris'' High, answerResponse ''Paris'' High,
                answerResponse ''Paris'' High, answerResponse ''Paris'' High]))
            ''Complex question?'' None = Some (Inr r)
      \<and> MakerResult.consensusReached r
      \<and> map (\<lambda>sr. winningVoteCount (SubQuestionResult.votingStats sr)) (MakerResult.subQuestions r)
          = [3, 4]
      \<and> totalVotes (MakerResult.votingStats r) = 9
      \<and> validVotes (MakerResult.votingStats r) = 8
      \<and> redFlaggedVotes (MakerResult.votingStats r) = 1
      \<and> winningVoteCount (MakerResult.votingStats r) = 3
      \<and> margin (MakerResult.votingStats r) = 3"
proof -
  let ?run = "ask (makerConfig (decomposingProvider
               [answerResponse ''Paris'' High, answerResponse ''Paris'' High,
                answerResponse ''Paris'' High,
                answerResponse ''Hi'' High, answerResponse ''London'' Medium,
                answerResponse ''Paris'' High, answerResponse ''Paris'' High,
                answerResponse ''Paris'' High, answerResponse ''Paris'' High]))
            ''Complex question?'' None"
  have run: "case ?run of
               Some (Inr r) \<Rightarrow>
                 isDecomposed r
                 \<and> map (\<lambda>sr. (SubQuestionResult.consensusReached sr,
                               totalVotes (SubQuestionResult.votingStats sr),
                               validVotes (SubQuestionResult.votingStats sr),
                               redFlaggedVotes (SubQuestionResult.votingStats sr),
                               winningVoteCount (SubQuestionResult.votingStats sr),
                               margin (SubQuestionResult.votingStats sr)))
                     (MakerResult.subQuestions r)
                   = [(True, 3, 3, 0, 3, 3), (True, 6, 5, 1, 4, 3)]
             | _ \<Rightarrow> False"
    by code_simp
  then obtain r where r: "?run = Some (Inr r)"
    and dec: "isDecomposed r"
    and subs: "map (\<lambda>sr. (SubQuestionResult.consensusReached sr,
                           totalVotes (SubQuestionResult.votingStats sr),
                           validVotes (SubQuestionResult.votingStats sr),
                           redFlaggedVotes (SubQuestionResult.votingStats sr),
                           winningVoteCount (SubQuestionResult.votingStats sr),
                           margin (SubQuestionResult.votingStats sr)))
                 (MakerResult.subQuestions r)
               = [(True, 3, 3, 0, 3, 3), (True, 6, 5, 1, 4, 3)]"
    by (auto split: option.splits sum.splits)
  from subs obtain s1 s2 where s12: "MakerResult.subQuestions r = [s1, s2]"
    and s1: "SubQuestionResult.consensusReached s1" "totalVotes (SubQuestionResult.votingStats s1) = 3"
      "validVotes (SubQuestionResult.votingStats s1) = 3"
      "redFlaggedVotes (SubQuestionResult.votingStats s1) = 0"
      "winningVoteCount (SubQuestionResult.votingStats s1) = 3"
      "margin (SubQuestionResult.votingStats s1) = 3"
    and s2: "SubQuestionResult.consensusReached s2" "totalVotes (SubQuestionResult.votingStats s2) = 6"
      "validVotes (SubQuestionResult.votingStats s2) = 5"
      "redFlaggedVotes (SubQuestionResult.votingStats s2) = 1"
      "winningVoteCount (SubQuestionResult.votingStats s2) = 4"
      "margin (SubQuestionResult.votingStats s2) = 3"
    by auto
  from ask_aggregation [OF r] dec s12 s1 s2
  have "MakerResult.consensusReached r"
    and "totalVotes (MakerResult.votingStats r) = 9"
    and "validVotes (MakerResult.votingStats r) = 8"
    and "redFlaggedVotes (MakerResult.votingStats r) = 1"
    and "winningVoteCount (MakerResult.votingStats r) = 3"
    and "margin (MakerResult.votingStats r) = 3"
    by auto
  with r s12 s1 s2 show ?thesis by auto
qed

section \<open>A per-call override of k\<close>

text \<open>
  Claim C10: when \<open>ask\<close> is called with an override of \<open>k\<close>, the \<open>votingStats\<close> of every
  sub-question carry the override; the aggregated \<open>votingStats\<close> carry it when there is
  exactly one sub-question, and with two or more sub-questions they carry the \<open>k\<close> of the
  constructor's voting configuration instead (3 when none is configured).
\<close>

theorem ask_k_override:
  assumes "ask config q (Some options) = Some (Inr r)"
    and "AskOptions.k options = Some override"
  shows "(\<forall>sr \<in> set (MakerResult.subQuestions r).
            VotingStats.k (SubQuestionResult.votingStats sr) = override)
       \<and> (length (MakerResult.subQuestions r) = 1
            \<longrightarrow> VotingStats.k (MakerResult.votingStats r) = override)
       \<and> (2 \<le> length (MakerResult.subQuestions r)
            \<longrightarrow> VotingStats.k (MakerResult.votingStats r)
                  = (case Option.bind (voting config) VotingConfig.k of None \<Rightarrow> 3 | Some n \<Rightarrow> n))"
proof (intro conjI impI)
  note facts = ask_sub_results [OF assms(1)]
  have eng: "VotingEngine.k (askVotingEngine config (Some options)) = override"
    using assms(2) by (simp add: askVotingEngine_def newVotingEngine_def)
  show subs: "\<forall>sr \<in> set (MakerResult.subQuestions r).
            VotingStats.k (SubQuestionResult.votingStats sr) = override"
    using facts(3) eng by simp
  {
    assume "length (MakerResult.subQuestions r) = 1"
    then obtain sr where sr: "MakerResult.subQuestions r = [sr]"
      by (cases "MakerResult.subQuestions r") auto
    then have "MakerResult.votingStats r = SubQuestionResult.votingStats sr"
      using facts(4) by (simp add: aggregateVotingStats_def)
    with subs sr show "VotingStats.k (MakerResult.votingStats r) = override" by simp
  }
  {
    assume "2 \<le> length (MakerResult.subQuestions r)"
    then have "VotingStats.k (MakerResult.votingStats r) = VotingEngine.k (makerVotingEngine config)"
      unfolding facts(4) by (rule aggregate_sums)
    also have "\<dots> = (case Option.bind (voting config) VotingConfig.k of None \<Rightarrow> 3 | Some n \<Rightarrow> n)"
      by (cases "voting config")
         (simp_all add: makerVotingEngine_def newVotingEngine_def orDefault_def emptyVotingConfig_def)
    finally show "VotingStats.k (MakerResult.votingStats r)
                  = (case Option.bind (voting config) VotingConfig.k of None \<Rightarrow> 3 | Some n \<Rightarrow> n)" .
  }
qed

text \<open>A run on a question split in two, with the override 1 and no configured \<open>k\<close>: each
  sub-question reports 1, the aggregate reports the default 3.\<close>

theorem ask_k_override_witness:
  "\<exists>r. ask (makerConfig (decomposingProvider
               [answerResponse ''Paris'' High, answerResponse ''Paris'' High]))
            ''Complex question?'' (Some \<lparr> contextText = None, AskOptions.k = Some 1 \<rparr>)
          = Some (Inr r)
      \<and> length (MakerResult.subQuestions r) = 2
      \<and> map (\<lambda>sr. VotingStats.k (SubQuestionResult.votingStats sr)) (MakerResult.subQuestions r)
          = [1, 1]
      \<and> VotingStats.k (MakerResult.votingStats r) = 3"
proof -
  let ?run = "ask (makerConfig (decomposingProvider
               [answerResponse ''Paris'' High, answerResponse ''Paris'' High]))
            ''Complex question?'' (Some \<lparr> contextText = None, AskOptions.k = Some 1 \<rparr>)"
  have run: "case ?run of Some (Inr r) \<Rightarrow> length (MakerResult.subQuestions r) = 2 | _ \<Rightarrow> False"
    by code_simp
  then obtain r where r: "?run = Some (Inr r)" and len: "length (MakerResult.subQuestions r) = 2"
    by (auto split: option.splits sum.splits)
  from len obtain s1 s2 where s12: "MakerResult.subQuestions r = [s1, s2]"
    by (cases "MakerResult.subQuestions r"; cases "tl (MakerResult.subQuestions r)") auto
  have "AskOptions.k \<lparr> contextText = None, AskOptions.k = Some 1 \<rparr> = Some 1" by simp
  from ask_k_override [OF r this] len s12
  have "VotingStats.k (SubQuestionResult.votingStats s1) = 1"
    and "VotingStats.k (SubQuestionResult.votingStats s2) = 1"
    and "VotingStats.k (MakerResult.votingStats r) = 3"
    by (auto simp: makerConfig_def)
  with r len s12 show ?thesis by auto
qed

section \<open>Answer normalization\<close>

subsection \<open>Characters\<close>

lemma space_isWhiteSpace: "isWhiteSpace (CHR '' '')"
  by (simp add: isWhiteSpace_def)

lemma toLowerChar_space: "toLowerChar (CHR '' '') = CHR '' ''"
  by (simp add: toLowerChar_def)

lemma toLowerChar_idem: "toLowerChar (toLowerChar c) = toLowerChar c"
  by (auto simp: toLowerChar_def Let_def)

subsection \<open>Dropping a trailing run\<close>

lemma dropTrailing_decomp:
  "\<exists>t. s = rev (dropWhile P (rev s)) @ t \<and> (\<forall>c \<in> set t. P c)"
proof -
  have "rev s = takeWhile P (rev s) @ dropWhile P (rev s)" by simp
  then have "s = rev (dropWhile P (rev s)) @ rev (takeWhile P (rev s))"
    by (metis rev_append rev_rev_ident)
  moreover have "\<forall>c \<in> set (rev (takeWhile P (rev s))). P c"
    by (auto dest: set_takeWhileD)
  ultimately show ?thesis by blast
qed

lemma dropTrailing_last:
  "rev (dropWhile P (rev s)) \<noteq> [] \<Longrightarrow> \<not> P (last (rev (dropWhile P (rev s))))"
  by (simp add: last_rev hd_dropWhile)

lemma dropTrailing_id:
  assumes "s = [] \<or> \<not> P (last s)"
  shows "rev (dropWhile P (rev s)) = s"
proof (cases "s = []")
  case True
  then show ?thesis by simp
next
  case False
  with assms have "\<not> P (hd (rev s))" by (simp add: hd_rev)
  then have "dropWhile P (rev s) = rev s" by (simp add: dropWhile_eq_self_iff)
  then show ?thesis by simp
qed

lemma dropTrailing_length: "length (rev (dropWhile P (rev s))) \<le> length s"
  using length_dropWhile_le [of P "rev s"] by simp

lemma dropTrailing_shorter:
  assumes "s \<noteq> []" and "P (last s)"
  shows "length (rev (dropWhile P (rev s))) < length s"
proof -
  from assms(1) have "rev s = last s # rev (butlast s)"
    by (metis append_butlast_last_id rev.simps(2) rev_append rev_rev_ident append_Cons append_Nil)
  then have "dropWhile P (rev s) = dropWhile P (last s # rev (butlast s))" by (rule arg_cong)
  also have "\<dots> = dropWhile P (rev (butlast s))" using assms(2) by simp
  finally have "dropWhile P (rev s) = dropWhile P (rev (butlast s))" .
  then have le: "length (dropWhile P (rev s)) \<le> length (butlast s)"
    using length_dropWhile_le [of P "rev (butlast s)"] by simp
  from assms(1) have lt: "length (butlast s) < length s" by simp
  from le lt have "length (dropWhile P (rev s)) < length s" by (rule le_less_trans)
  then show ?thesis by simp
qed

lemma dropTrailing_hd:
  "rev (dropWhile P (rev s)) \<noteq> [] \<Longrightarrow> hd (rev (dropWhile P (rev s))) = hd s"
  using dropTrailing_decomp [of s P] by (metis hd_append2)

lemma dropTrailing_set: "set (rev (dropWhile P (rev s))) \<subseteq> set s"
  by (auto dest: set_dropWhileD)

subsection \<open>Collapsing white space\<close>

lemma collapseWhitespace_length: "length (collapseWhitespace s) \<le> length s"
proof (induction s rule: collapseWhitespace.induct)
  case 1
  then show ?case by simp
next
  case (2 c cs)
  then show ?case
    using length_dropWhile_le [of isWhiteSpace cs] by (auto simp: le_Suc_eq)
qed

lemma collapseWhitespace_set: "set (collapseWhitespace s) \<subseteq> insert (CHR '' '') (set s)"
proof (induction s rule: collapseWhitespace.induct)
  case 1
  then show ?case by simp
next
  case (2 c cs)
  then show ?case by (auto dest: set_dropWhileD)
qed

lemma collapseWhitespace_hd:
  "s = [] \<or> \<not> isWhiteSpace (hd s)
   \<Longrightarrow> collapseWhitespace s = [] \<or> \<not> isWhiteSpace (hd (collapseWhitespace s))"
  by (cases s) auto

lemma collapsed_collapseWhitespace: "collapsed (collapseWhitespace s)"
proof (induction s rule: collapseWhitespace.induct)
  case 1
  then show ?case by simp
next
  case (2 c cs)
  show ?case
  proof (cases "isWhiteSpace c")
    case True
    have "dropWhile isWhiteSpace cs = [] \<or> \<not> isWhiteSpace (hd (dropWhile isWhiteSpace cs))"
      using hd_dropWhile [of isWhiteSpace cs] by blast
    then have "collapseWhitespace (dropWhile isWhiteSpace cs) = []
               \<or> \<not> isWhiteSpace (hd (collapseWhitespace (dropWhile isWhiteSpace cs)))"
      by (rule collapseWhitespace_hd)
    with True "2.IH"(1) show ?thesis by (auto simp: space_isWhiteSpace)
  next
    case False
    with "2.IH"(2) show ?thesis by simp
  qed
qed

lemma collapsed_fixed: "collapsed s \<Longrightarrow> collapseWhitespace s = s"
proof (induction s)
  case Nil
  then show ?case by simp
next
  case (Cons c cs)
  then show ?case by (cases cs) (auto split: if_splits)
qed

lemma collapsed_prefix: "collapsed (u @ v) \<Longrightarrow> collapsed u"
proof (induction u)
  case Nil
  then show ?case by simp
next
  case (Cons c u)
  then show ?case by (cases u) (auto split: if_splits)
qed

lemma collapsed_white_is_space:
  "collapsed s \<Longrightarrow> c \<in> set s \<Longrightarrow> isWhiteSpace c \<Longrightarrow> c = CHR '' ''"
  by (induction s) (auto split: if_splits)

subsection \<open>The shape of a normalized answer\<close>

lemma normalizeAnswer_pipeline:
  "normalizeAnswer s = stripTrailingPunct (collapseWhitespace (trim (toLowerCase s)))"
  by (simp add: normalizeAnswer_def stripTrailingPunct_def trim_def toLowerCase_def)

lemma trim_hd: "trim s = [] \<or> \<not> isWhiteSpace (hd (trim s))"
proof (cases "trim s = []")
  case True
  then show ?thesis by simp
next
  case False
  then have "hd (trim s) = hd (dropWhile isWhiteSpace s)"
    unfolding trim_def by (rule dropTrailing_hd)
  moreover from False have "dropWhile isWhiteSpace s \<noteq> []"
    unfolding trim_def by (auto dest: set_dropWhileD)
  ultimately show ?thesis using hd_dropWhile [of isWhiteSpace s] by simp
qed

lemma trim_set: "set (trim s) \<subseteq> set s"
  unfolding trim_def using dropTrailing_set [of isWhiteSpace "dropWhile isWhiteSpace s"]
  by (auto dest: set_dropWhileD)

lemma normalizeAnswer_lowered:
  assumes "c \<in> set (normalizeAnswer s)"
  shows "toLowerChar c = c"
proof -
  have "set (normalizeAnswer s) \<subseteq> set (collapseWhitespace (trim (toLowerCase s)))"
    unfolding normalizeAnswer_pipeline stripTrailingPunct_def by (rule dropTrailing_set)
  with assms have "c \<in> set (collapseWhitespace (trim (toLowerCase s)))" by (rule subsetD [rotated])
  with collapseWhitespace_set [of "trim (toLowerCase s)"]
  have "c \<in> insert (CHR '' '') (set (trim (toLowerCase s)))" by (rule subsetD)
  with trim_set [of "toLowerCase s"]
  have "c = CHR '' '' \<or> c \<in> set (toLowerCase s)" by blast
  then show ?thesis
  proof
    assume "c = CHR '' ''"
    then show ?thesis by (simp add: toLowerChar_space)
  next
    assume "c \<in> set (toLowerCase s)"
    then obtain d where "c = toLowerChar d" unfolding toLowerCase_def by auto
    then show ?thesis by (simp add: toLowerChar_idem)
  qed
qed

lemma normalizeAnswer_collapsed: "collapsed (normalizeAnswer s)"
proof -
  obtain t where "collapseWhitespace (trim (toLowerCase s))
                    = rev (dropWhile isTrailingPunct (rev (collapseWhitespace (trim (toLowerCase s))))) @ t"
    using dropTrailing_decomp [of "collapseWhitespace (trim (toLowerCase s))" isTrailingPunct]
    by blast
  then have "collapseWhitespace (trim (toLowerCase s)) = normalizeAnswer s @ t"
    by (simp only: normalizeAnswer_pipeline stripTrailingPunct_def)
  with collapsed_collapseWhitespace [of "trim (toLowerCase s)"]
  have "collapsed (normalizeAnswer s @ t)" by simp
  then show ?thesis by (rule collapsed_prefix)
qed

lemma normalizeAnswer_hd:
  "normalizeAnswer s = [] \<or> \<not> isWhiteSpace (hd (normalizeAnswer s))"
proof (cases "normalizeAnswer s = []")
  case True
  then show ?thesis by simp
next
  case False
  then have "hd (normalizeAnswer s) = hd (collapseWhitespace (trim (toLowerCase s)))"
    unfolding normalizeAnswer_pipeline stripTrailingPunct_def by (rule dropTrailing_hd)
  moreover from False have "collapseWhitespace (trim (toLowerCase s)) \<noteq> []"
    unfolding normalizeAnswer_pipeline stripTrailingPunct_def by auto
  ultimately show ?thesis
    using collapseWhitespace_hd [OF trim_hd [of "toLowerCase s"]] by simp
qed

lemma normalizeAnswer_last:
  "normalizeAnswer s = [] \<or> \<not> isTrailingPunct (last (normalizeAnswer s))"
  unfolding normalizeAnswer_pipeline stripTrailingPunct_def
  using dropTrailing_last [of isTrailingPunct "collapseWhitespace (trim (toLowerCase s))"]
  by blast

lemma normalizeAnswer_fixed:
  assumes "normalizeAnswer s = [] \<or> last (normalizeAnswer s) \<noteq> CHR '' ''"
  shows "normalizeAnswer (normalizeAnswer s) = normalizeAnswer s"
proof (cases "normalizeAnswer s = []")
  case True
  then show ?thesis by (simp add: normalizeAnswer_def)
next
  case False
  let ?t = "normalizeAnswer s"
  from False assms have "last ?t \<noteq> CHR '' ''" by simp
  with False have nws: "\<not> isWhiteSpace (last ?t)"
    using collapsed_white_is_space [OF normalizeAnswer_collapsed, of "last ?t" s] by auto
  have 1: "toLowerCase ?t = ?t"
    unfolding toLowerCase_def by (rule map_idI) (rule normalizeAnswer_lowered)
  have "dropWhile isWhiteSpace ?t = ?t"
    using normalizeAnswer_hd [of s] by (simp add: dropWhile_eq_self_iff)
  then have 2: "trim ?t = ?t"
    unfolding trim_def using nws by (simp add: dropTrailing_id)
  have 3: "collapseWhitespace ?t = ?t"
    using normalizeAnswer_collapsed by (rule collapsed_fixed)
  have 4: "stripTrailingPunct ?t = ?t"
    unfolding stripTrailingPunct_def using normalizeAnswer_last [of s] by (rule dropTrailing_id)
  show ?thesis
    by (subst normalizeAnswer_pipeline) (simp only: 1 2 3 4)
qed

lemma normalizeAnswer_shrinks:
  assumes "normalizeAnswer s \<noteq> []" and "last (normalizeAnswer s) = CHR '' ''"
  shows "length (normalizeAnswer (normalizeAnswer s)) < length (normalizeAnswer s)"
proof -
  let ?t = "normalizeAnswer s"
  have 1: "toLowerCase ?t = ?t"
    unfolding toLowerCase_def by (rule map_idI) (rule normalizeAnswer_lowered)
  have dw: "dropWhile isWhiteSpace ?t = ?t"
    using normalizeAnswer_hd [of s] by (simp add: dropWhile_eq_self_iff)
  from assms have "isWhiteSpace (last ?t)" by (simp add: space_isWhiteSpace)
  with assms(1) have "length (rev (dropWhile isWhiteSpace (rev ?t))) < length ?t"
    by (rule dropTrailing_shorter)
  then have "length (trim ?t) < length ?t"
    unfolding trim_def dw .
  moreover have "length (normalizeAnswer ?t) \<le> length (trim ?t)"
    unfolding normalizeAnswer_pipeline [of ?t] 1 stripTrailingPunct_def
    using dropTrailing_length [of isTrailingPunct "collapseWhitespace (trim ?t)"]
      collapseWhitespace_length [of "trim ?t"]
    by linarith
  ultimately show ?thesis by linarith
qed

text \<open>
  Claim C5 says that normalization is idempotent. It is not: stripping the trailing
  punctuation can uncover a space, which a second normalization trims away.
\<close>

theorem normalizeAnswer_not_idempotent:
  "normalizeAnswer ''Paris .'' = ''paris ''
   \<and> normalizeAnswer (normalizeAnswer ''Paris .'') = ''paris''
   \<and> normalizeAnswer (normalizeAnswer ''Paris .'') \<noteq> normalizeAnswer ''Paris .''"
  by code_simp

text \<open>
  Claim C5, amended: normalizing twice gives the same as normalizing once exactly when the
  normalized answer does not end in a space (it never ends in any other white space or in
  punctuation); and normalization does not see case, surrounding white space or trailing
  punctuation on the examples of the claim, which all normalize to "paris".
\<close>

theorem normalizeAnswer_idempotent_iff:
  "(normalizeAnswer (normalizeAnswer s) = normalizeAnswer s
      \<longleftrightarrow> normalizeAnswer s = [] \<or> last (normalizeAnswer s) \<noteq> CHR '' '')
   \<and> normalizeAnswer ''Paris'' = ''paris''
   \<and> normalizeAnswer ''PARIS'' = ''paris''
   \<and> normalizeAnswer ''  Paris  '' = ''paris''
   \<and> normalizeAnswer ''Paris.'' = ''paris''
   \<and> normalizeAnswer ''Paris!'' = ''paris''"
proof (intro conjI)
  show "normalizeAnswer (normalizeAnswer s) = normalizeAnswer s
      \<longleftrightarrow> normalizeAnswer s = [] \<or> last (normalizeAnswer s) \<noteq> CHR '' ''"
    using normalizeAnswer_fixed [of s] normalizeAnswer_shrinks [of s] by fastforce
qed code_simp+

theorem normalizeAnswer_idempotent_iff_witness:
  "normalizeAnswer (normalizeAnswer ''The  Answer is: Paris!?'') = normalizeAnswer ''The  Answer is: Paris!?''
   \<and> normalizeAnswer ''The  Answer is: Paris!?'' = ''the answer is: paris''"
proof -
  have v: "normalizeAnswer ''The  Answer is: Paris!?'' = ''the answer is: paris''"
    by code_simp
  then have "normalizeAnswer ''The  Answer is: Paris!?'' = []
             \<or> last (normalizeAnswer ''The  Answer is: Paris!?'') \<noteq> CHR '' ''"
    by simp
  with normalizeAnswer_idempotent_iff [of "''The  Answer is: Paris!?''"] v
  show ?thesis by blast
qed

section \<open>The tally\<close>

subsection \<open>Recording one vote\<close>

lemma bestConfidence_single: "bestConfidence [c] = c"
  by (cases c) (simp_all add: bestConfidence_def)

lemma bestConfidence_snoc:
  "cs \<noteq> [] \<Longrightarrow>
   bestConfidence (cs @ [c])
     = (if compareConfidence c (bestConfidence cs) > 0 then c else bestConfidence cs)"
  by (cases c; cases "hd cs"; cases cs)
     (auto simp: bestConfidence_def compareConfidence_def confidenceOrder_def
           split: ConfidenceLevel.splits)

lemma votesFor_snoc:
  "votesFor x (vs @ [v]) = (if answerKey v = x then votesFor x vs @ [v] else votesFor x vs)"
  by (simp add: votesFor_def)

lemma bucketOf_snoc_other:
  "answerKey v \<noteq> x \<Longrightarrow> bucketOf x (vs @ [v]) = bucketOf x vs"
  by (simp add: bucketOf_def votesFor_snoc)

lemma bucketOf_snoc_new:
  "bucketOf (answerKey v) vs = None \<Longrightarrow>
   bucketOf (answerKey v) (vs @ [v])
     = Some \<lparr> count = 1, originalAnswer = Vote.answer v, VoteData.confidence = Vote.confidence v \<rparr>"
  by (auto simp: bucketOf_def votesFor_snoc bestConfidence_single split: list.splits)

lemma bucketOf_snoc_existing:
  assumes "bucketOf (answerKey v) vs = Some existing"
  shows "bucketOf (answerKey v) (vs @ [v])
     = Some (existing\<lparr> count := count existing + 1,
                       VoteData.confidence :=
                         (if compareConfidence (Vote.confidence v) (VoteData.confidence existing) > 0
                          then Vote.confidence v else VoteData.confidence existing) \<rparr>)"
proof -
  from assms obtain w ws where ws: "votesFor (answerKey v) vs = w # ws"
    and ex: "existing = \<lparr> count = int (length (w # ws)), originalAnswer = Vote.answer w,
                 VoteData.confidence = bestConfidence (map Vote.confidence (w # ws)) \<rparr>"
    by (auto simp: bucketOf_def split: list.splits)
  have "bestConfidence (map Vote.confidence ((w # ws) @ [v]))
          = (if compareConfidence (Vote.confidence v) (bestConfidence (map Vote.confidence (w # ws))) > 0
             then Vote.confidence v else bestConfidence (map Vote.confidence (w # ws)))"
    using bestConfidence_snoc [of "map Vote.confidence (w # ws)" "Vote.confidence v"] by simp
  then show ?thesis
    by (simp add: bucketOf_def votesFor_snoc ws ex)
qed

lemma recordVote_bucketOf:
  assumes "distinct (map fst t)" and "map_of t = (\<lambda>x. bucketOf x vs)"
  shows "distinct (map fst (recordVote t (answerKey v) v))
       \<and> map_of (recordVote t (answerKey v) v) = (\<lambda>x. bucketOf x (vs @ [v]))"
proof (cases "bucketOf (answerKey v) vs")
  case None
  with assms(2) have "map_of t (answerKey v) = None" by simp
  then have rv: "recordVote t (answerKey v) v
                   = AList.update (answerKey v)
                       \<lparr> count = 1, originalAnswer = Vote.answer v,
                         VoteData.confidence = Vote.confidence v \<rparr> t"
    by (simp add: recordVote_def)
  have "map_of (recordVote t (answerKey v) v) x = bucketOf x (vs @ [v])" for x
    unfolding rv using assms(2) None
    by (cases "answerKey v = x") (auto simp: update_conv' bucketOf_snoc_new bucketOf_snoc_other)
  then show ?thesis using assms(1) by (auto simp: rv distinct_update)
next
  case (Some existing)
  with assms(2) have "map_of t (answerKey v) = Some existing" by simp
  then have rv: "recordVote t (answerKey v) v
                   = AList.update (answerKey v)
                       (existing\<lparr> count := count existing + 1,
                         VoteData.confidence :=
                           (if compareConfidence (Vote.confidence v) (VoteData.confidence existing) > 0
                            then Vote.confidence v else VoteData.confidence existing) \<rparr>) t"
    by (simp add: recordVote_def)
  have "map_of (recordVote t (answerKey v) v) x = bucketOf x (vs @ [v])" for x
    unfolding rv using assms(2) Some
    by (cases "answerKey v = x") (auto simp: update_conv' bucketOf_snoc_existing bucketOf_snoc_other)
  then show ?thesis using assms(1) by (auto simp: rv distinct_update)
qed

subsection \<open>Highest and second-highest count\<close>

lemma highest_mset: "mset cs = mset cs' \<Longrightarrow> highest cs = highest cs'"
proof -
  assume eq: "mset cs = mset cs'"
  then have "set cs = set cs'" by (rule mset_eq_setD)
  moreover from eq have "cs = [] \<longleftrightarrow> cs' = []" by (metis mset_zero_iff)
  ultimately show ?thesis by (simp add: highest_def)
qed

lemma secondHighest_mset: "mset cs = mset cs' \<Longrightarrow> secondHighest cs = secondHighest cs'"
proof -
  assume eq: "mset cs = mset cs'"
  then have s: "set cs = set cs'" by (rule mset_eq_setD)
  from eq have l: "length cs = length cs'" by (rule mset_eq_length)
  from eq s have "mset (remove1 (Max (set cs)) cs) = mset (remove1 (Max (set cs')) cs')"
    by simp
  then have "set (remove1 (Max (set cs)) cs) = set (remove1 (Max (set cs')) cs')"
    by (rule mset_eq_setD)
  with l show ?thesis by (simp add: secondHighest_def)
qed

lemma sorted_descending_head:
  fixes f :: "'a \<Rightarrow> int"
  assumes "sort_key (\<lambda>e. - f e) xs = e # others"
  shows "f e = Max (set (map f xs))"
proof -
  let ?ys = "sort_key (\<lambda>e. - f e) xs"
  have srt: "sorted (map (\<lambda>e. - f e) ?ys)" by (rule sorted_sort_key)
  have st: "set ?ys = set xs" by simp
  from assms st have ein: "e \<in> set xs" by (metis list.set_intros(1))
  have "f y \<le> f e" if "y \<in> set xs" for y
  proof -
    from that st assms have "y \<in> set (e # others)" by simp
    with srt assms show ?thesis by auto
  qed
  with ein show ?thesis
    by (intro Max_eqI [symmetric]) auto
qed

lemma sorted_descending_second:
  fixes f :: "'a \<Rightarrow> int"
  assumes "sort_key (\<lambda>e. - f e) xs = e # others"
  shows "(case others of [] \<Rightarrow> 0 | r # _ \<Rightarrow> f r) = secondHighest (map f xs)"
proof -
  have srt: "sorted (map (\<lambda>e. - f e) (e # others))"
    using sorted_sort_key [of "\<lambda>e. - f e" xs] by (simp only: assms)
  have "mset (e # others) = mset xs"
    using mset_sort [of "\<lambda>e. - f e" xs] by (simp only: assms)
  then have "image_mset f (mset (e # others)) = image_mset f (mset xs)"
    by (rule arg_cong)
  then have ms: "mset (map f xs) = mset (map f (e # others))"
    by (simp only: mset_map)
  then have "set (map f xs) = set (map f (e # others))"
    by (rule mset_eq_setD)
  then have fe: "Max (set (map f (e # others))) = f e"
    using sorted_descending_head [OF assms] by (simp only:)
  have "secondHighest (map f xs) = secondHighest (map f (e # others))"
    using ms by (rule secondHighest_mset)
  also have "\<dots> = (case others of [] \<Rightarrow> 0 | r # _ \<Rightarrow> f r)"
  proof (cases others)
    case Nil
    then show ?thesis by (simp add: secondHighest_def)
  next
    case (Cons r rest)
    have rem: "remove1 (f e) (map f (e # others)) = map f others"
      by simp
    have le: "f y \<le> f r" if "y \<in> set others" for y
    proof -
      from srt Cons have "sorted (map (\<lambda>e. - f e) (r # rest))" by simp
      with that Cons show ?thesis by auto
    qed
    have "f r \<in> set (map f others)" using Cons by simp
    moreover have "\<And>c. c \<in> set (map f others) \<Longrightarrow> c \<le> f r" using le by auto
    ultimately have mx: "Max (set (map f others)) = f r"
      by (intro Max_eqI) simp_all
    have len: "\<not> length (map f (e # others)) \<le> 1" using Cons by simp
    have "secondHighest (map f (e # others))
            = Max (set (remove1 (Max (set (map f (e # others)))) (map f (e # others))))"
      unfolding secondHighest_def using len by (simp only: if_False)
    also have "\<dots> = Max (set (map f others))" by (simp only: fe rem)
    also have "\<dots> = f r" by (rule mx)
    finally show ?thesis using Cons by simp
  qed
  finally show ?thesis by simp
qed

lemma sortDescending_second:
  assumes "counts \<noteq> []"
  shows "(if length (sortDescending counts) > 1 then sortDescending counts ! 1 else 0)
           = secondHighest counts"
proof -
  have "sort_key (\<lambda>c. - c) counts \<noteq> []"
  proof
    assume "sort_key (\<lambda>c. - c) counts = []"
    then have "length (sort_key (\<lambda>c. - c) counts) = 0" by (simp only: list.size)
    then have "length counts = 0" by (simp only: length_sort)
    with assms show False by simp
  qed
  then obtain e others where eo: "sort_key (\<lambda>c. - c) counts = e # others"
    by (cases "sort_key (\<lambda>c. - c) counts") auto
  from sorted_descending_second [of "\<lambda>c. c" counts e others, OF eo]
  have "(case others of [] \<Rightarrow> 0 | r # _ \<Rightarrow> r) = secondHighest counts" by simp
  then show ?thesis
    unfolding sortDescending_def eo by (cases others) simp_all
qed

subsection \<open>A tally that holds the buckets of a list of votes\<close>

lemma bucketOf_None_iff: "bucketOf x vs = None \<longleftrightarrow> x \<notin> set (distinctAnswers vs)"
proof -
  have "votesFor x vs = [] \<longleftrightarrow> x \<notin> answerKey ` set vs"
    unfolding votesFor_def by (auto simp: filter_empty_conv)
  then show ?thesis
    by (auto simp: bucketOf_def distinctAnswers_def split: list.splits)
qed

lemma bucketOf_count: "bucketOf x vs = Some d \<Longrightarrow> count d = int (length (votesFor x vs))"
  by (auto simp: bucketOf_def split: list.splits)

lemma bucketOf_fields:
  "bucketOf x vs = Some d \<Longrightarrow>
     votesFor x vs \<noteq> []
     \<and> originalAnswer d = Vote.answer (hd (votesFor x vs))
     \<and> VoteData.confidence d = bestConfidence (map Vote.confidence (votesFor x vs))"
  by (auto simp: bucketOf_def split: list.splits)

lemma tally_entry:
  assumes "distinct (map fst t)" and "map_of t = (\<lambda>x. bucketOf x vs)" and "e \<in> set t"
  shows "bucketOf (fst e) vs = Some (snd e)"
proof -
  from assms(1,3) have "map_of t (fst e) = Some (snd e)" by (cases e) simp
  with assms(2) show ?thesis by simp
qed

lemma tally_keys:
  assumes "distinct (map fst t)" and "map_of t = (\<lambda>x. bucketOf x vs)"
  shows "mset (map fst t) = mset (distinctAnswers vs)"
proof -
  have "set (map fst t) = dom (map_of t)" by (simp add: dom_map_of_conv_image_fst)
  also have "\<dots> = {x. bucketOf x vs \<noteq> None}" unfolding assms(2) by (simp add: dom_def)
  also have "\<dots> = set (distinctAnswers vs)" by (simp add: bucketOf_None_iff)
  finally have seteq: "set (map fst t) = set (distinctAnswers vs)" .
  have d2: "distinct (distinctAnswers vs)" by (simp add: distinctAnswers_def)
  from set_eq_iff_mset_eq_distinct [OF assms(1) d2] seteq show ?thesis by blast
qed

lemma tally_counts:
  assumes "distinct (map fst t)" and "map_of t = (\<lambda>x. bucketOf x vs)"
  shows "mset (map (\<lambda>e. count (snd e)) t) = mset (answerCounts vs)"
proof -
  have "count (snd e) = int (length (votesFor (fst e) vs))" if "e \<in> set t" for e
    using tally_entry [OF assms that] by (rule bucketOf_count)
  then have "map (\<lambda>e. count (snd e)) t = map (\<lambda>x. int (length (votesFor x vs))) (map fst t)"
    by simp
  then have "mset (map (\<lambda>e. count (snd e)) t)
               = image_mset (\<lambda>x. int (length (votesFor x vs))) (mset (map fst t))"
    by (simp only: mset_map)
  also have "\<dots> = image_mset (\<lambda>x. int (length (votesFor x vs))) (mset (distinctAnswers vs))"
    by (simp only: tally_keys [OF assms])
  also have "\<dots> = mset (answerCounts vs)"
    by (simp only: answerCounts_def mset_map)
  finally show ?thesis .
qed

lemma tally_highest:
  assumes "distinct (map fst t)" and "map_of t = (\<lambda>x. bucketOf x vs)"
  shows "highest (map (\<lambda>e. count (snd e)) t) = leadingCount vs"
    and "secondHighest (map (\<lambda>e. count (snd e)) t) = runnerUpCount vs"
    and "length t = length (distinctAnswers vs)"
proof -
  note ms = tally_counts [OF assms]
  show "highest (map (\<lambda>e. count (snd e)) t) = leadingCount vs"
    unfolding leadingCount_def using ms by (rule highest_mset)
  show "secondHighest (map (\<lambda>e. count (snd e)) t) = runnerUpCount vs"
    unfolding runnerUpCount_def using ms by (rule secondHighest_mset)
  from mset_eq_length [OF tally_keys [OF assms]]
  show "length t = length (distinctAnswers vs)" by simp
qed

lemma countVotes_step:
  assumes "distinct (map fst t)" and "map_of t = (\<lambda>x. bucketOf x vs0)"
  shows "distinct (map fst (foldl (\<lambda>counts vote.
              let normalized = normalizeAnswer (Vote.answer vote)
              in if normalized = [] then counts else recordVote counts normalized vote) t vs))
       \<and> map_of (foldl (\<lambda>counts vote.
              let normalized = normalizeAnswer (Vote.answer vote)
              in if normalized = [] then counts else recordVote counts normalized vote) t vs)
           = (\<lambda>x. bucketOf x (vs0 @ filter (\<lambda>v. answerKey v \<noteq> []) vs))"
  using assms
proof (induction vs arbitrary: t vs0)
  case Nil
  then show ?case by simp
next
  case (Cons v vs)
  show ?case
  proof (cases "answerKey v = []")
    case True
    with Cons.IH [OF Cons.prems] show ?thesis
      by (simp add: answerKey_def Let_def)
  next
    case False
    from recordVote_bucketOf [OF Cons.prems, of v]
    have d: "distinct (map fst (recordVote t (answerKey v) v))"
      and m: "map_of (recordVote t (answerKey v) v) = (\<lambda>x. bucketOf x (vs0 @ [v]))"
      by simp_all
    from Cons.IH [OF d m] False show ?thesis
      by (simp add: answerKey_def Let_def)
  qed
qed

lemma bucketOf_Nil: "bucketOf x [] = None"
  by (simp add: bucketOf_def votesFor_def)

lemma countVotes_tally:
  "distinct (map fst (countVotes vs))
   \<and> map_of (countVotes vs) = (\<lambda>x. bucketOf x (filter (\<lambda>v. answerKey v \<noteq> []) vs))"
proof -
  have "distinct (map fst ([] :: VoteCounts))" by simp
  moreover have "map_of ([] :: VoteCounts) = (\<lambda>x. bucketOf x [])" by (simp add: bucketOf_Nil)
  ultimately show ?thesis
    unfolding countVotes_def using countVotes_step [of "[]" "[]" vs] by simp
qed

section \<open>One-shot scoring\<close>

lemma counted_eq:
  "filter (\<lambda>v. answerKey v \<noteq> []) (filter (\<lambda>v. Vote.redFlagged v \<noteq> Some True) votes)
     = counted votes"
  by (simp add: counted_def conj_commute)

lemma sortByCount_Nil_iff: "sortByCountDescending t = [] \<longleftrightarrow> t = []"
proof
  assume "sortByCountDescending t = []"
  then have "length (sort_key (\<lambda>e. - count (snd e)) t) = 0"
    by (simp only: sortByCountDescending_def list.size)
  then show "t = []" by (simp only: length_sort length_0_conv)
next
  assume "t = []"
  then show "sortByCountDescending t = []" by (simp add: sortByCountDescending_def)
qed

lemma sortByCount_head:
  assumes "sortByCountDescending t = e # others"
  shows "count (snd e) = highest (map (\<lambda>e. count (snd e)) t)"
    and "(case others of [] \<Rightarrow> 0 | r # _ \<Rightarrow> count (snd r)) = secondHighest (map (\<lambda>e. count (snd e)) t)"
    and "length (e # others) = length t"
    and "e \<in> set t"
proof -
  from assms have sk: "sort_key (\<lambda>e. - count (snd e)) t = e # others"
    by (simp only: sortByCountDescending_def)
  have ne: "t \<noteq> []"
  proof
    assume "t = []"
    then have "sortByCountDescending t = []" by (simp only: sortByCount_Nil_iff)
    with assms show False by simp
  qed
  then have "map (\<lambda>e. count (snd e)) t \<noteq> []" by simp
  then have "highest (map (\<lambda>e. count (snd e)) t) = Max (set (map (\<lambda>e. count (snd e)) t))"
    by (simp only: highest_def if_False)
  with sorted_descending_head [of "\<lambda>e. count (snd e)" t e others, OF sk]
  show "count (snd e) = highest (map (\<lambda>e. count (snd e)) t)" by (simp only:)
  from sorted_descending_second [of "\<lambda>e. count (snd e)" t e others, OF sk]
  show "(case others of [] \<Rightarrow> 0 | r # _ \<Rightarrow> count (snd r)) = secondHighest (map (\<lambda>e. count (snd e)) t)" .
  have "length (sort_key (\<lambda>e. - count (snd e)) t) = length t" by (rule length_sort)
  then show "length (e # others) = length t" by (simp only: sk)
  have "set (sort_key (\<lambda>e. - count (snd e)) t) = set t" by (rule set_sort)
  then have st: "set (e # others) = set t" by (simp only: sk)
  have "e \<in> set (e # others)" by simp
  then show "e \<in> set t" by (simp only: st)
qed

lemma secondHighest_short: "length cs \<le> 1 \<Longrightarrow> secondHighest cs = 0"
  by (simp add: secondHighest_def)

lemma answerCounts_single:
  "distinctAnswers vs = [x] \<Longrightarrow> leadingCount vs = int (length (votesFor x vs)) \<and> runnerUpCount vs = 0"
  by (simp add: leadingCount_def runnerUpCount_def answerCounts_def highest_def secondHighest_def)

lemma answerCounts_empty:
  "distinctAnswers vs = [] \<Longrightarrow> leadingCount vs = 0 \<and> runnerUpCount vs = 0"
  by (simp add: leadingCount_def runnerUpCount_def answerCounts_def highest_def secondHighest_def)

lemma determineWinner_no_answer:
  assumes "distinctAnswers (counted votes) = []"
  shows "\<not> VotingResult.consensusReached (determineWinner eng votes)
       \<and> winner (determineWinner eng votes) = None
       \<and> winningVoteCount (stats (determineWinner eng votes)) = 0
       \<and> margin (stats (determineWinner eng votes)) = 0"
proof -
  let ?valid = "filter (\<lambda>v. Vote.redFlagged v \<noteq> Some True) votes"
  note tl = countVotes_tally [of ?valid, unfolded counted_eq]
  from tally_highest(3) [OF tl [THEN conjunct1] tl [THEN conjunct2]] assms
  have "countVotes ?valid = []" by simp
  then have "sortByCountDescending (countVotes ?valid) = []" by (simp only: sortByCount_Nil_iff)
  then show ?thesis
    by (simp add: determineWinner_def Let_def createStats_def)
qed

lemma determineWinner_some_answer:
  assumes "distinctAnswers (counted votes) \<noteq> []"
  shows "(VotingResult.consensusReached (determineWinner eng votes)
            \<longleftrightarrow> (if length (distinctAnswers (counted votes)) = 1
                 then leadingCount (counted votes) \<ge> VotingEngine.k eng
                 else leadingCount (counted votes) - runnerUpCount (counted votes) \<ge> VotingEngine.k eng))
       \<and> winningVoteCount (stats (determineWinner eng votes)) = leadingCount (counted votes)
       \<and> margin (stats (determineWinner eng votes))
           = leadingCount (counted votes) - runnerUpCount (counted votes)"
proof -
  let ?valid = "filter (\<lambda>v. Vote.redFlagged v \<noteq> Some True) votes"
  let ?t = "countVotes ?valid"
  note tl = countVotes_tally [of ?valid, unfolded counted_eq]
  note th = tally_highest [OF tl [THEN conjunct1] tl [THEN conjunct2]]
  from th(3) assms have tne: "?t \<noteq> []" by auto
  then have vne: "?valid \<noteq> []" by (auto simp: countVotes_def)
  from tne obtain e others where so: "sortByCountDescending ?t = e # others"
    using sortByCount_Nil_iff [of ?t] by (cases "sortByCountDescending ?t") auto
  note sh = sortByCount_head [OF so]
  have w: "count (snd e) = leadingCount (counted votes)"
    using sh(1) th(1) by simp
  have r: "(case others of [] \<Rightarrow> 0 | r # _ \<Rightarrow> count (snd r)) = runnerUpCount (counted votes)"
    using sh(2) th(2) by simp
  have l: "length (sortByCountDescending ?t) = length (distinctAnswers (counted votes))"
    using sh(3) th(3) so by simp
  show ?thesis
    using vne w r l
    by (simp add: determineWinner_def Let_def createStats_def so del: length_Cons)
qed

text \<open>
  Claim C3: \<open>determineWinner\<close> discards the red-flagged votes and the votes whose
  normalized answer is empty. If at least two distinct normalized answers remain, consensus
  is reached exactly when the leading count minus the runner-up count is at least \<open>k\<close>; if
  exactly one remains, exactly when its count is at least \<open>k\<close>. The reported winning count
  is the leading count, and the margin is the leading count minus the runner-up count,
  where the runner-up count is 0 when there is no second answer.
\<close>

theorem determineWinner_consensus:
  "(2 \<le> length (distinctAnswers (counted votes)) \<longrightarrow>
      (VotingResult.consensusReached (determineWinner eng votes)
         \<longleftrightarrow> leadingCount (counted votes) - runnerUpCount (counted votes) \<ge> VotingEngine.k eng))
   \<and> (\<forall>x. distinctAnswers (counted votes) = [x] \<longrightarrow>
      (VotingResult.consensusReached (determineWinner eng votes)
         \<longleftrightarrow> int (length (votesFor x (counted votes))) \<ge> VotingEngine.k eng))
   \<and> winningVoteCount (stats (determineWinner eng votes)) = leadingCount (counted votes)
   \<and> margin (stats (determineWinner eng votes))
       = leadingCount (counted votes) - runnerUpCount (counted votes)
   \<and> (length (distinctAnswers (counted votes)) \<le> 1 \<longrightarrow> runnerUpCount (counted votes) = 0)"
proof (cases "distinctAnswers (counted votes) = []")
  case True
  with determineWinner_no_answer [OF True, of eng] answerCounts_empty [OF True]
  show ?thesis by simp
next
  case False
  note some = determineWinner_some_answer [OF False, of eng]
  have single: "leadingCount (counted votes) = int (length (votesFor x (counted votes)))"
    if "distinctAnswers (counted votes) = [x]" for x
    using answerCounts_single [OF that] by simp
  have short: "runnerUpCount (counted votes) = 0" if "length (distinctAnswers (counted votes)) \<le> 1"
    unfolding runnerUpCount_def answerCounts_def using that by (simp add: secondHighest_short)
  show ?thesis
  proof (intro conjI impI allI)
    assume "2 \<le> length (distinctAnswers (counted votes))"
    then have "length (distinctAnswers (counted votes)) \<noteq> 1" by simp
    with some show "VotingResult.consensusReached (determineWinner eng votes)
         \<longleftrightarrow> leadingCount (counted votes) - runnerUpCount (counted votes) \<ge> VotingEngine.k eng"
      by simp
  next
    fix x assume x: "distinctAnswers (counted votes) = [x]"
    then have "length (distinctAnswers (counted votes)) = 1" by simp
    with some single [OF x]
    show "VotingResult.consensusReached (determineWinner eng votes)
         \<longleftrightarrow> int (length (votesFor x (counted votes))) \<ge> VotingEngine.k eng"
      by simp
  next
    show "winningVoteCount (stats (determineWinner eng votes)) = leadingCount (counted votes)"
      using some by simp
    show "margin (stats (determineWinner eng votes))
       = leadingCount (counted votes) - runnerUpCount (counted votes)"
      using some by simp
  next
    assume "length (distinctAnswers (counted votes)) \<le> 1"
    then show "runnerUpCount (counted votes) = 0" by (rule short)
  qed
qed

text \<open>The scenarios of the specification: three votes for Paris and one for London reach
  consensus at \<open>k = 2\<close> with margin 2; with a second vote for London the margin is 1 and
  consensus is not reached; a red-flagged vote is not counted.\<close>

theorem determineWinner_consensus_witness:
  "VotingResult.consensusReached
     (determineWinner (newVotingEngine \<lparr> VotingConfig.k = Some 2, maxVotes = None \<rparr>)
        [castVote 0 ''Paris'' High, castVote 1 ''paris.'' High, castVote 2 '' PARIS '' High,
         castVote 3 ''London'' Medium,
         (castVote 4 ''London'' High)\<lparr> Vote.redFlagged := Some True \<rparr>])
   \<and> margin (stats
        (determineWinner (newVotingEngine \<lparr> VotingConfig.k = Some 2, maxVotes = None \<rparr>)
          [castVote 0 ''Paris'' High, castVote 1 ''paris.'' High, castVote 2 '' PARIS '' High,
           castVote 3 ''London'' Medium,
           (castVote 4 ''London'' High)\<lparr> Vote.redFlagged := Some True \<rparr>])) = 2
   \<and> \<not> VotingResult.consensusReached
     (determineWinner (newVotingEngine \<lparr> VotingConfig.k = Some 2, maxVotes = None \<rparr>)
        [castVote 0 ''Paris'' High, castVote 1 ''Paris'' High, castVote 2 ''Paris'' High,
         castVote 3 ''London'' Medium, castVote 4 ''London'' High])"
proof -
  let ?eng = "newVotingEngine \<lparr> VotingConfig.k = Some 2, maxVotes = None \<rparr>"
  let ?a = "[castVote 0 ''Paris'' High, castVote 1 ''paris.'' High, castVote 2 '' PARIS '' High,
         castVote 3 ''London'' Medium,
         (castVote 4 ''London'' High)\<lparr> Vote.redFlagged := Some True \<rparr>]"
  let ?b = "[castVote 0 ''Paris'' High, castVote 1 ''Paris'' High, castVote 2 ''Paris'' High,
         castVote 3 ''London'' Medium, castVote 4 ''London'' High]"
  have a: "2 \<le> length (distinctAnswers (counted ?a))"
      "leadingCount (counted ?a) - runnerUpCount (counted ?a) = 2"
    by code_simp+
  have b: "2 \<le> length (distinctAnswers (counted ?b))"
      "leadingCount (counted ?b) - runnerUpCount (counted ?b) = 1"
    by code_simp+
  have k: "VotingEngine.k ?eng = 2" by (simp add: newVotingEngine_def)
  from determineWinner_consensus [of ?a ?eng] a k
  have "VotingResult.consensusReached (determineWinner ?eng ?a)"
    and "margin (stats (determineWinner ?eng ?a)) = 2"
    by simp_all
  moreover from determineWinner_consensus [of ?b ?eng] b k
  have "\<not> VotingResult.consensusReached (determineWinner ?eng ?b)"
    by simp
  ultimately show ?thesis by blast
qed

section \<open>The stopping rule of the voting loop\<close>

lemma rejected_flagged_copy:
  "rejected flt (v\<lparr> Vote.redFlagged := a, redFlagReason := b \<rparr>) = rejected flt v"
  by (simp add: rejected_def)

lemma admitted_snoc:
  "admitted flt (vs @ [v]) = (if rejected flt v then admitted flt vs else admitted flt vs @ [v])"
  by (simp add: admitted_def)

lemma consistent_initial: "consistent flt initialState"
  by (simp add: consistent_def initialState_def admitted_def bucketOf_Nil)

lemma recordVote_nonempty: "recordVote t x v \<noteq> []"
  by (cases t) (auto simp: recordVote_def split: option.splits)

lemma find_highest:
  assumes "t \<noteq> []"
  shows "\<exists>e \<in> set t. find (\<lambda>e. count (snd e) = highest (map (\<lambda>e. count (snd e)) t)) t = Some e
                       \<and> count (snd e) = highest (map (\<lambda>e. count (snd e)) t)"
proof -
  let ?cs = "map (\<lambda>e. count (snd e)) t"
  from assms have "Max (set ?cs) \<in> set ?cs" by (intro Max_in) simp_all
  moreover from assms have "highest ?cs = Max (set ?cs)" by (simp add: highest_def)
  ultimately obtain e0 where "e0 \<in> set t" "count (snd e0) = highest ?cs" by auto
  then have "\<exists>x. x \<in> set t \<and> count (snd x) = highest ?cs" by blast
  then have "find (\<lambda>e. count (snd e) = highest ?cs) t \<noteq> None"
    unfolding find_None_iff by blast
  then obtain e where e: "find (\<lambda>e. count (snd e) = highest ?cs) t = Some e" by auto
  then have "e \<in> set t \<and> count (snd e) = highest ?cs"
    unfolding find_Some_iff by (metis nth_mem)
  with e show ?thesis by blast
qed

lemma voteIteration_tallied:
  assumes "\<not> rejected flt vote"
  shows "voteIteration eng flt vote st =
     (let t' = recordVote (voteCounts st) (answerKey vote) vote;
          st2 = st\<lparr> allVotes := allVotes st @ [vote],
                    validVoteCount := validVoteCount st + 1,
                    voteCounts := t' \<rparr>;
          cs = map (\<lambda>e. count (snd e)) t'
      in case (if highest cs \<ge> VotingEngine.k eng + secondHighest cs
               then find (\<lambda>e. count (snd e) = highest cs) t' else None) of
           Some e \<Rightarrow> Return (consensusResult eng st2 (snd e) (highest cs) (secondHighest cs))
         | None \<Rightarrow>
             if int (length (allVotes st2)) \<ge> VotingEngine.maxVotes eng
             then Return (cutoffResult eng st2) else Continue st2)"
proof -
  define t' where "t' = recordVote (voteCounts st) (normalizeAnswer (Vote.answer vote)) vote"
  define cs where "cs = map (\<lambda>e. count (snd e)) t'"
  have ne: "cs \<noteq> []"
    unfolding cs_def t'_def
    using recordVote_nonempty [of "voteCounts st" "normalizeAnswer (Vote.answer vote)" vote] by simp
  then have h: "Max (set cs) = highest cs" by (simp add: highest_def)
  have s: "(if length (sortDescending cs) > 1 then sortDescending cs ! 1 else 0) = secondHighest cs"
    using ne by (rule sortDescending_second)
  from assms have nf: "\<not> RedFlagResult.redFlagged
       (check flt (Vote.answer vote) (case parseSucceeded vote of None \<Rightarrow> True | Some b \<Rightarrow> b))"
    and nn: "normalizeAnswer (Vote.answer vote) \<noteq> []"
    by (simp_all add: rejected_def)
  have "voteIteration eng flt vote st =
     (let st2 = st\<lparr> allVotes := allVotes st @ [vote],
                    validVoteCount := validVoteCount st + 1,
                    voteCounts := t' \<rparr>
      in if cs = [] then Continue st2
         else case (if Max (set cs) \<ge> VotingEngine.k eng
                          + (if length (sortDescending cs) > 1 then sortDescending cs ! 1 else 0)
               then find (\<lambda>e. count (snd e) = Max (set cs)) t' else None) of
           Some e \<Rightarrow> Return (consensusResult eng st2 (snd e) (Max (set cs))
                              (if length (sortDescending cs) > 1 then sortDescending cs ! 1 else 0))
         | None \<Rightarrow>
             if int (length (allVotes st2)) \<ge> VotingEngine.maxVotes eng
             then Return (cutoffResult eng st2) else Continue st2)"
    unfolding voteIteration_def Let_def cs_def t'_def
    using nf nn by (simp split del: if_split cong: if_cong option.case_cong)
  also have "\<dots> =
     (let st2 = st\<lparr> allVotes := allVotes st @ [vote],
                    validVoteCount := validVoteCount st + 1,
                    voteCounts := t' \<rparr>
      in case (if highest cs \<ge> VotingEngine.k eng + secondHighest cs
               then find (\<lambda>e. count (snd e) = highest cs) t' else None) of
           Some e \<Rightarrow> Return (consensusResult eng st2 (snd e) (highest cs) (secondHighest cs))
         | None \<Rightarrow>
             if int (length (allVotes st2)) \<ge> VotingEngine.maxVotes eng
             then Return (cutoffResult eng st2) else Continue st2)"
    by (simp only: h s ne if_False)
  finally show ?thesis
    by (simp only: cs_def t'_def answerKey_def Let_def)
qed

lemma voteIteration_rejected_state:
  assumes "rejected flt v" and "voteIteration eng flt v st = Continue st'"
  shows "voteCounts st' = voteCounts st \<and> admitted flt (allVotes st') = admitted flt (allVotes st)"
proof (cases "RedFlagResult.redFlagged
       (check flt (Vote.answer v) (case parseSucceeded v of None \<Rightarrow> True | Some b \<Rightarrow> b))")
  case True
  with assms(2) have "st' = st\<lparr> allVotes := allVotes st @
        [v\<lparr> Vote.redFlagged := Some True,
            redFlagReason := reason (check flt (Vote.answer v)
              (case parseSucceeded v of None \<Rightarrow> True | Some b \<Rightarrow> b)) \<rparr>] \<rparr>"
    by (simp add: voteIteration_def Let_def)
  then show ?thesis
    using assms(1) by (simp add: admitted_snoc rejected_flagged_copy)
next
  case False
  with assms(1) have "normalizeAnswer (Vote.answer v) = []" by (simp add: rejected_def)
  with False assms(2) have "st' = st\<lparr> allVotes := allVotes st @ [v],
                                       validVoteCount := validVoteCount st + 1 \<rparr>"
    by (simp add: voteIteration_def Let_def)
  then show ?thesis
    using assms(1) by (simp add: admitted_snoc)
qed

lemma consistent_tallied:
  assumes "consistent flt st" and "\<not> rejected flt v"
  shows "distinct (map fst (recordVote (voteCounts st) (answerKey v) v))"
    and "map_of (recordVote (voteCounts st) (answerKey v) v)
           = (\<lambda>x. bucketOf x (admitted flt (allVotes st) @ [v]))"
  using recordVote_bucketOf [of "voteCounts st" "admitted flt (allVotes st)" v] assms(1)
  by (simp_all add: consistent_def)

lemma voteIteration_tallied_state:
  assumes "\<not> rejected flt v" and "voteIteration eng flt v st = Continue st'"
  shows "voteCounts st' = recordVote (voteCounts st) (answerKey v) v
       \<and> allVotes st' = allVotes st @ [v]"
  using assms(2) unfolding voteIteration_tallied [OF assms(1)] Let_def
  by (auto split: option.splits if_splits)

text \<open>Every state that the loop reaches is consistent: the tally holds exactly the buckets
  of the samples admitted so far.\<close>

lemma consistent_step:
  assumes "consistent flt st" and "voteIteration eng flt v st = Continue st'"
  shows "consistent flt st'"
proof (cases "rejected flt v")
  case True
  from voteIteration_rejected_state [OF True assms(2)] assms(1)
  show ?thesis by (simp add: consistent_def)
next
  case False
  from voteIteration_tallied_state [OF False assms(2)] consistent_tallied [OF assms(1) False] False
  show ?thesis by (simp add: consistent_def admitted_snoc)
qed

lemma voteIteration_consensus_iff:
  assumes "consistent flt st" and "\<not> rejected flt vote"
  shows "(\<exists>r. voteIteration eng flt vote st = Return r \<and> VotingResult.consensusReached r)
         \<longleftrightarrow> leadingCount (admitted flt (allVotes st) @ [vote])
               \<ge> VotingEngine.k eng + runnerUpCount (admitted flt (allVotes st) @ [vote])"
proof -
  let ?t = "recordVote (voteCounts st) (answerKey vote) vote"
  let ?cs = "map (\<lambda>e. count (snd e)) ?t"
  note ct = consistent_tallied [OF assms]
  note th = tally_highest [OF ct]
  from find_highest [OF recordVote_nonempty, of "voteCounts st" "answerKey vote" vote]
  obtain e where e: "find (\<lambda>e. count (snd e) = highest ?cs) ?t = Some e" by blast
  show ?thesis
    unfolding voteIteration_tallied [OF assms(2)] Let_def th(1) th(2) e [unfolded th(1)]
    by (simp add: consensusResult_def cutoffResult_def Let_def)
qed

lemma voteIteration_consensus_result:
  assumes "consistent flt st" and "\<not> rejected flt vote"
    and "voteIteration eng flt vote st = Return r" and "VotingResult.consensusReached r"
  shows "(\<exists>x. votesFor x (admitted flt (allVotes st) @ [vote]) \<noteq> []
            \<and> int (length (votesFor x (admitted flt (allVotes st) @ [vote])))
                = leadingCount (admitted flt (allVotes st) @ [vote])
            \<and> winner r = Some (Vote.answer (hd (votesFor x (admitted flt (allVotes st) @ [vote]))))
            \<and> VotingResult.confidence r
                = Some (bestConfidence (map Vote.confidence
                          (votesFor x (admitted flt (allVotes st) @ [vote])))))
       \<and> winningVoteCount (stats r) = leadingCount (admitted flt (allVotes st) @ [vote])
       \<and> margin (stats r) = leadingCount (admitted flt (allVotes st) @ [vote])
                             - runnerUpCount (admitted flt (allVotes st) @ [vote])"
proof -
  let ?adm = "admitted flt (allVotes st) @ [vote]"
  let ?t = "recordVote (voteCounts st) (answerKey vote) vote"
  let ?cs = "map (\<lambda>e. count (snd e)) ?t"
  let ?st2 = "st\<lparr> allVotes := allVotes st @ [vote],
                    validVoteCount := validVoteCount st + 1,
                    voteCounts := ?t \<rparr>"
  note ct = consistent_tallied [OF assms(1,2)]
  note th = tally_highest [OF ct]
  from find_highest [OF recordVote_nonempty, of "voteCounts st" "answerKey vote" vote]
  obtain e where ein: "e \<in> set ?t"
    and e: "find (\<lambda>e. count (snd e) = highest ?cs) ?t = Some e"
    and ec: "count (snd e) = highest ?cs" by blast
  have r: "r = consensusResult eng ?st2 (snd e) (leadingCount ?adm) (runnerUpCount ?adm)"
    using assms(3,4)
    unfolding voteIteration_tallied [OF assms(2)] Let_def th(1) th(2) e [unfolded th(1)]
    by (auto simp: cutoffResult_def Let_def split: if_splits)
  from tally_entry [OF ct ein] have b: "bucketOf (fst e) ?adm = Some (snd e)" .
  note f = bucketOf_fields [OF b]
  from bucketOf_count [OF b] ec th(1)
  have c: "int (length (votesFor (fst e) ?adm)) = leadingCount ?adm" by simp
  have "votesFor (fst e) ?adm \<noteq> []
            \<and> int (length (votesFor (fst e) ?adm)) = leadingCount ?adm
            \<and> winner r = Some (Vote.answer (hd (votesFor (fst e) ?adm)))
            \<and> VotingResult.confidence r
                = Some (bestConfidence (map Vote.confidence (votesFor (fst e) ?adm)))"
    using f c by (simp add: r consensusResult_def)
  then have "\<exists>x. votesFor x ?adm \<noteq> []
            \<and> int (length (votesFor x ?adm)) = leadingCount ?adm
            \<and> winner r = Some (Vote.answer (hd (votesFor x ?adm)))
            \<and> VotingResult.confidence r
                = Some (bestConfidence (map Vote.confidence (votesFor x ?adm)))"
    by (rule exI)
  moreover have "winningVoteCount (stats r) = leadingCount ?adm"
    and "margin (stats r) = leadingCount ?adm - runnerUpCount ?adm"
    by (simp_all add: r consensusResult_def)
  ultimately show ?thesis by blast
qed

subsection \<open>From one pass to the loop\<close>

lemma voteLoop_Return:
  assumes "voteIteration eng flt
             (generateVote prov (fc + length (allVotes st)) (length (allVotes st))) st = Return r"
  shows "voteLoop eng flt prov fc st = Some r"
  by (subst voteLoop.simps) (simp add: Let_def assms)

lemma voteLoop_Continue:
  assumes "voteIteration eng flt
             (generateVote prov (fc + length (allVotes st)) (length (allVotes st))) st = Continue st'"
  shows "voteLoop eng flt prov fc st = voteLoop eng flt prov fc st'"
  by (subst voteLoop.simps) (simp add: Let_def assms)

text \<open>A session that ends with consensus reports a margin of at least \<open>k\<close>.\<close>

lemma voteLoop_consensus_margin:
  assumes "voteLoop eng flt prov fc st = Some r"
    and "consistent flt st" and "VotingResult.consensusReached r"
  shows "VotingEngine.k eng \<le> margin (stats r) \<and> winner r \<noteq> None"
proof -
  from assms(1)
  have "consistent flt st \<and> VotingResult.consensusReached r
          \<longrightarrow> VotingEngine.k eng \<le> margin (stats r) \<and> winner r \<noteq> None"
  proof (rule voteLoop.raw_induct [rotated,
        where P = "\<lambda>eng flt prov fc st r.
                     consistent flt st \<and> VotingResult.consensusReached r
                       \<longrightarrow> VotingEngine.k eng \<le> margin (stats r) \<and> winner r \<noteq> None"])
    fix loop eng flt prov fc st y
    assume IH: "\<And>eng flt prov fc st y. loop eng flt prov fc st = Some y
                  \<Longrightarrow> consistent flt st \<and> VotingResult.consensusReached y
                        \<longrightarrow> VotingEngine.k eng \<le> margin (stats y) \<and> winner y \<noteq> None"
      and body: "(let voteIdx = length (allVotes st);
                      vote = generateVote prov (fc + voteIdx) voteIdx
                  in case voteIteration eng flt vote st of
                       Continue st' \<Rightarrow> loop eng flt prov fc st'
                     | Return r \<Rightarrow> Some r) = Some y"
    let ?v = "generateVote prov (fc + length (allVotes st)) (length (allVotes st))"
    show "consistent flt st \<and> VotingResult.consensusReached y
            \<longrightarrow> VotingEngine.k eng \<le> margin (stats y) \<and> winner y \<noteq> None"
    proof
      assume a: "consistent flt st \<and> VotingResult.consensusReached y"
      show "VotingEngine.k eng \<le> margin (stats y) \<and> winner y \<noteq> None"
      proof (cases "voteIteration eng flt ?v st")
        case (Continue st')
        with body have "loop eng flt prov fc st' = Some y" by (simp add: Let_def)
        moreover from a Continue have "consistent flt st'" using consistent_step by blast
        ultimately show ?thesis using IH a by blast
      next
        case (Return r)
        with body have ry: "r = y" by (simp add: Let_def)
        have nr: "\<not> rejected flt ?v"
          using voteIteration_rejected [of flt ?v eng st] Return by auto
        from a have c: "consistent flt st" and cr: "VotingResult.consensusReached y" by simp_all
        from Return ry have ret: "voteIteration eng flt ?v st = Return y" by simp
        from voteIteration_consensus_iff [OF c nr, of eng] ret cr
        have "VotingEngine.k eng + runnerUpCount (admitted flt (allVotes st) @ [?v])
                \<le> leadingCount (admitted flt (allVotes st) @ [?v])"
          by blast
        moreover note voteIteration_consensus_result [OF c nr ret cr]
        ultimately show ?thesis by auto
      qed
    qed
  qed
  with assms(2,3) show ?thesis by blast
qed

text \<open>
  Claim C2: after a sample that is admitted and whose normalized answer is not empty, the
  loop stops with consensus exactly when the leading count is at least \<open>k\<close> plus the
  runner-up count, both taken over all samples admitted so far, this one included (the
  runner-up count is 0 when there is one distinct answer). The winner is then the answer
  text of the first sample of a leading answer, the confidence is the best confidence among
  the samples of that answer, the winning count is the leading count and the margin is the
  leading count minus the runner-up count. With \<open>k = 2\<close> and the answers Paris, London,
  Paris, Paris the loop stops after exactly four samples, with winner "Paris" and margin 2.
\<close>

theorem voteUntilConsensus_stopping_rule:
  assumes "consistent flt st" and "\<not> rejected flt vote"
  shows "((\<exists>r. voteIteration eng flt vote st = Return r \<and> VotingResult.consensusReached r)
            \<longleftrightarrow> leadingCount (admitted flt (allVotes st) @ [vote])
                  \<ge> VotingEngine.k eng + runnerUpCount (admitted flt (allVotes st) @ [vote]))
       \<and> (\<forall>r. voteIteration eng flt vote st = Return r \<and> VotingResult.consensusReached r \<longrightarrow>
             (\<exists>x. votesFor x (admitted flt (allVotes st) @ [vote]) \<noteq> []
                \<and> int (length (votesFor x (admitted flt (allVotes st) @ [vote])))
                    = leadingCount (admitted flt (allVotes st) @ [vote])
                \<and> winner r
                    = Some (Vote.answer (hd (votesFor x (admitted flt (allVotes st) @ [vote]))))
                \<and> VotingResult.confidence r
                    = Some (bestConfidence (map Vote.confidence
                              (votesFor x (admitted flt (allVotes st) @ [vote])))))
             \<and> winningVoteCount (stats r) = leadingCount (admitted flt (allVotes st) @ [vote])
             \<and> margin (stats r) = leadingCount (admitted flt (allVotes st) @ [vote])
                                   - runnerUpCount (admitted flt (allVotes st) @ [vote]))
       \<and> map_option
            (\<lambda>r. (VotingResult.consensusReached r, winner r, VotingResult.confidence r,
                   totalVotes (stats r), winningVoteCount (stats r), margin (stats r)))
            (voteUntilConsensus (newVotingEngine \<lparr> VotingConfig.k = Some 2, maxVotes = None \<rparr>)
               (sequentialResponses
                  [answerResponse ''Paris'' High, answerResponse ''London'' High,
                   answerResponse ''Paris'' High, answerResponse ''Paris'' High])
               0 (newRedFlagFilter emptyRedFlagConfig))
          = Some (True, Some ''Paris'', Some High, 4, 3, 2)"
proof (intro conjI allI impI)
  show "(\<exists>r. voteIteration eng flt vote st = Return r \<and> VotingResult.consensusReached r)
            \<longleftrightarrow> leadingCount (admitted flt (allVotes st) @ [vote])
                  \<ge> VotingEngine.k eng + runnerUpCount (admitted flt (allVotes st) @ [vote])"
    using assms by (rule voteIteration_consensus_iff)
next
  fix r
  assume "voteIteration eng flt vote st = Return r \<and> VotingResult.consensusReached r"
  then have r: "voteIteration eng flt vote st = Return r" "VotingResult.consensusReached r"
    by simp_all
  note res = voteIteration_consensus_result [OF assms r]
  from res show "\<exists>x. votesFor x (admitted flt (allVotes st) @ [vote]) \<noteq> []
                \<and> int (length (votesFor x (admitted flt (allVotes st) @ [vote])))
                    = leadingCount (admitted flt (allVotes st) @ [vote])
                \<and> winner r
                    = Some (Vote.answer (hd (votesFor x (admitted flt (allVotes st) @ [vote]))))
                \<and> VotingResult.confidence r
                    = Some (bestConfidence (map Vote.confidence
                              (votesFor x (admitted flt (allVotes st) @ [vote]))))"
    by (rule conjunct1)
  from res show "winningVoteCount (stats r) = leadingCount (admitted flt (allVotes st) @ [vote])"
    by simp
  from res show "margin (stats r) = leadingCount (admitted flt (allVotes st) @ [vote])
                                   - runnerUpCount (admitted flt (allVotes st) @ [vote])"
    by simp
next
  show "map_option
            (\<lambda>r. (VotingResult.consensusReached r, winner r, VotingResult.confidence r,
                   totalVotes (stats r), winningVoteCount (stats r), margin (stats r)))
            (voteUntilConsensus (newVotingEngine \<lparr> VotingConfig.k = Some 2, maxVotes = None \<rparr>)
               (sequentialResponses
                  [answerResponse ''Paris'' High, answerResponse ''London'' High,
                   answerResponse ''Paris'' High, answerResponse ''Paris'' High])
               0 (newRedFlagFilter emptyRedFlagConfig))
          = Some (True, Some ''Paris'', Some High, 4, 3, 2)"
    by code_simp
qed

text \<open>With \<open>k = 2\<close> and two samples "Paris": the first sample does not end the loop, and
  in the state it leaves the second sample does.\<close>

theorem voteUntilConsensus_stopping_rule_witness:
  "voteIteration (newVotingEngine \<lparr> VotingConfig.k = Some 2, maxVotes = None \<rparr>)
       (newRedFlagFilter emptyRedFlagConfig) (castVote 0 ''Paris'' Medium) initialState
     = Continue \<lparr> voteCounts = [(''paris'', \<lparr> count = 1, originalAnswer = ''Paris'',
                                              VoteData.confidence = Medium \<rparr>)],
                  allVotes = [castVote 0 ''Paris'' Medium], validVoteCount = 1 \<rparr>
   \<and> (\<exists>r. voteIteration (newVotingEngine \<lparr> VotingConfig.k = Some 2, maxVotes = None \<rparr>)
            (newRedFlagFilter emptyRedFlagConfig) (castVote 1 ''PARIS!'' High)
            \<lparr> voteCounts = [(''paris'', \<lparr> count = 1, originalAnswer = ''Paris'',
                                            VoteData.confidence = Medium \<rparr>)],
              allVotes = [castVote 0 ''Paris'' Medium], validVoteCount = 1 \<rparr> = Return r
          \<and> VotingResult.consensusReached r
          \<and> winner r = Some ''Paris''
          \<and> VotingResult.confidence r = Some High
          \<and> margin (stats r) = 2)"
proof -
  let ?eng = "newVotingEngine \<lparr> VotingConfig.k = Some 2, maxVotes = None \<rparr>"
  let ?flt = "newRedFlagFilter emptyRedFlagConfig"
  let ?v0 = "castVote 0 ''Paris'' Medium"
  let ?v1 = "castVote 1 ''PARIS!'' High"
  let ?st1 = "\<lparr> voteCounts = [(''paris'', \<lparr> count = 1, originalAnswer = ''Paris'',
                                              VoteData.confidence = Medium \<rparr>)],
                  allVotes = [?v0], validVoteCount = 1 \<rparr>"
  let ?adm = "admitted ?flt (allVotes ?st1) @ [?v1]"
  have step0: "voteIteration ?eng ?flt ?v0 initialState = Continue ?st1"
    by code_simp
  have c1: "consistent ?flt ?st1"
    using consistent_initial step0 by (rule consistent_step)
  have adm1: "\<not> rejected ?flt ?v1"
    by code_simp
  have vals: "leadingCount ?adm = 2" "runnerUpCount ?adm = 0"
      "votesFor ''paris'' ?adm = [?v0, ?v1]"
    by code_simp+
  have la: "list_all (\<lambda>v. answerKey v = ''paris'') ?adm"
    by code_simp
  have others: "votesFor x ?adm = []" if "x \<noteq> ''paris''" for x
    using la that unfolding votesFor_def list_all_iff filter_empty_conv by blast
  have k: "VotingEngine.k ?eng = 2" by (simp add: newVotingEngine_def)
  note rule = voteUntilConsensus_stopping_rule [OF c1 adm1, of ?eng]
  have cond: "VotingEngine.k ?eng + runnerUpCount ?adm \<le> leadingCount ?adm"
    by (simp only: vals k)
  with rule [THEN conjunct1] obtain r where r: "voteIteration ?eng ?flt ?v1 ?st1 = Return r"
      "VotingResult.consensusReached r"
    by blast
  with rule [THEN conjunct2, THEN conjunct1] obtain x where x: "votesFor x ?adm \<noteq> []"
      "winner r = Some (Vote.answer (hd (votesFor x ?adm)))"
      "VotingResult.confidence r = Some (bestConfidence (map Vote.confidence (votesFor x ?adm)))"
    and m: "margin (stats r) = leadingCount ?adm - runnerUpCount ?adm"
    by blast
  from x(1) others have xp: "x = ''paris''" by blast
  have w: "winner r = Some ''Paris''"
    using x(2) unfolding xp vals(3) by (simp add: castVote_def)
  have c: "VotingResult.confidence r = Some High"
    using x(3) unfolding xp vals(3) by (simp add: castVote_def bestConfidence_def)
  have m2: "margin (stats r) = 2"
    using m by (simp only: vals)
  from r w c m2 have "\<exists>r. voteIteration ?eng ?flt ?v1 ?st1 = Return r
          \<and> VotingResult.consensusReached r
          \<and> winner r = Some ''Paris''
          \<and> VotingResult.confidence r = Some High
          \<and> margin (stats r) = 2"
    by blast
  with step0 show ?thesis by (rule conjI)
qed

end
